theory Spec2Isabelle
  imports Main "HOL-Library.Sublist"
begin

section \<open>Request batching middleware\<close>

text \<open>
  The middleware intercepts outgoing write requests, groups the eligible ones under a key
  computed from the grouping tag and the method, and sends each group as one combined request,
  either when the time window of the group ends or as soon as the group is full. The module
  has one piece of shared state, the registry \<open>awaitingBatches\<close>; timers, promises and the
  calls to the transport are effects of the JavaScript runtime and are made explicit in the
  state of the model.
\<close>

subsection \<open>Values of the runtime\<close>

text \<open>
  The only exception the module can raise is the \<open>TypeError\<close> of reading a property of
  \<open>undefined\<close>. The values that travel through \<open>batch.promise\<close>, \<open>clearTimeout\<close> and
  \<open>resolve\<close> are \<open>null\<close>, the promise created by \<open>commitEventually\<close> (named by the order
  of its creation), the promise returned by a call of \<open>apiFetch\<close> (named by the position of
  the call), and the numeric handle returned by \<open>setTimeout\<close>.
\<close>

datatype error = TypeError

datatype jsval = Null | TimerPromise nat | FetchPromise nat | TimerId nat

definition BATCH_TIME_WINDOW :: nat where
  "BATCH_TIME_WINDOW = 1000"

definition MAX_BATCH_SIZE :: nat where
  "MAX_BATCH_SIZE = 20"

subsection \<open>Requests\<close>

text \<open>
  Fetch options. \<open>method\<close>, \<open>batchAs\<close> and \<open>path\<close> may be absent (\<open>None\<close> is
  \<open>undefined\<close>); \<open>body\<close> and \<open>headers\<close> are opaque; \<open>others\<close> stands for every other
  field the caller has put on the object.
\<close>

record ('b, 'h, 'x) options =
  "method" :: "string option"
  batchAs :: "string option"
  path :: "string option"
  body :: 'b
  headers :: 'h
  others :: 'x

text \<open>The object literal built for each request of a batch, and the combined request.\<close>

record ('b, 'h) sub_request =
  sub_path :: "string option"
  sub_body :: 'b
  sub_headers :: 'h

record ('b, 'h) batch_data =
  validation :: string
  data_requests :: "('b, 'h) sub_request list"

record ('b, 'h) fetch_options =
  fetch_path :: string
  fetch_method :: string
  fetch_data :: "('b, 'h) batch_data"

subsection \<open>State\<close>

record ('b, 'h, 'x) batch =
  promise :: jsval
  requests :: "('b, 'h, 'x) options list"

text \<open>
  A pending timeout: its handle, the time at which it is due, and the two variables its
  callback \<open>() => resolve( commit( batchId ) )\<close> has captured.
\<close>

record timer =
  timer_id :: nat
  timer_due :: nat
  timer_batch :: string
  timer_promise :: nat

text \<open>
  \<open>awaitingBatches\<close> is the module's registry. The other fields are the runtime: the clock
  (in milliseconds), the pending timeouts in the order they were scheduled, the counters that
  name timers and promises, what each promise of \<open>commitEventually\<close> has been resolved with,
  the calls of \<open>apiFetch\<close> and of \<open>next\<close> in order, and the exceptions that reached the
  event loop.
\<close>

record ('b, 'h, 'x) state =
  awaitingBatches :: "string \<rightharpoonup> ('b, 'h, 'x) batch"
  now :: nat
  timers :: "timer list"
  nextTimerId :: nat
  nextPromiseId :: nat
  resolved :: "nat \<rightharpoonup> jsval"
  fetches :: "('b, 'h) fetch_options list"
  nextCalls :: "('b, 'h, 'x) options list"
  uncaught :: "error list"

definition init :: "('b, 'h, 'x) state" where
  "init = \<lparr>awaitingBatches = Map.empty, now = 0, timers = [], nextTimerId = 0,
     nextPromiseId = 0, resolved = Map.empty, fetches = [], nextCalls = [], uncaught = []\<rparr>"

subsection \<open>\<open>JSON.stringify\<close> on an array of strings\<close>

text \<open>
  The batch key is \<open>JSON.stringify( [ options.batchAs, options.method ] )\<close>. Both elements
  are strings or \<open>undefined\<close>; an \<open>undefined\<close> element of an array is written \<open>null\<close>. A
  string is written between double quotes, with the two-character escapes for backspace, tab,
  line feed, form feed, carriage return, the double quote and the backslash, and \<open>\u00xx\<close> in
  lower-case hexadecimal for every other character below the space. Strings are strings of
  8-bit characters here, and a grouping tag that is present is a string. A key begins with
  a bracket, so no key is the name of a property that the registry object inherits.
\<close>

definition hex_digit :: "nat \<Rightarrow> char" where
  "hex_digit n = (if n < 10 then char_of (48 + n) else char_of (87 + n))"

definition escape_char :: "char \<Rightarrow> string" where
  "escape_char c =
    (if c = CHR 0x08 then [CHR 0x5C, CHR ''b'']
     else if c = CHR 0x09 then [CHR 0x5C, CHR ''t'']
     else if c = CHR 0x0A then [CHR 0x5C, CHR ''n'']
     else if c = CHR 0x0C then [CHR 0x5C, CHR ''f'']
     else if c = CHR 0x0D then [CHR 0x5C, CHR ''r'']
     else if c = CHR 0x22 then [CHR 0x5C, CHR 0x22]
     else if c = CHR 0x5C then [CHR 0x5C, CHR 0x5C]
     else if (of_char c :: nat) < 0x20 then
       [CHR 0x5C, CHR ''u'', CHR ''0'', CHR ''0'',
        hex_digit ((of_char c :: nat) div 16), hex_digit ((of_char c :: nat) mod 16)]
     else [c])"

definition QuoteJSONString :: "string \<Rightarrow> string" where
  "QuoteJSONString s = CHR 0x22 # concat (map escape_char s) @ [CHR 0x22]"

definition SerializeJSONProperty :: "string option \<Rightarrow> string" where
  "SerializeJSONProperty v = (case v of None \<Rightarrow> ''null'' | Some s \<Rightarrow> QuoteJSONString s)"

fun join_commas :: "string list \<Rightarrow> string" where
  "join_commas [] = []"
| "join_commas [x] = x"
| "join_commas (x # y # ys) = x @ '','' @ join_commas (y # ys)"

definition JSON_stringify :: "string option list \<Rightarrow> string" where
  "JSON_stringify xs = ''['' @ join_commas (map SerializeJSONProperty xs) @ '']''"

subsection \<open>The functions of the module\<close>

text \<open>\<open>String.prototype.indexOf\<close>: the first position at which the needle occurs, or -1.\<close>

fun indexOf_from :: "nat \<Rightarrow> string \<Rightarrow> string \<Rightarrow> int" where
  "indexOf_from i [] needle = (if needle = [] then int i else - 1)"
| "indexOf_from i (c # cs) needle =
     (if prefix needle (c # cs) then int i else indexOf_from (Suc i) cs needle)"

definition indexOf :: "string \<Rightarrow> string \<Rightarrow> int" where
  "indexOf hay needle = indexOf_from 0 hay needle"

text \<open>\<open>path.indexOf\<close> on an absent path is a property read on \<open>undefined\<close>.\<close>

definition endpointSupportsBatch :: "string option \<Rightarrow> error + bool" where
  "endpointSupportsBatch p =
     (case p of
        None \<Rightarrow> Inl TypeError
      | Some s \<Rightarrow> Inr (indexOf s ''/v2/template-parts'' \<noteq> - 1))"

definition addRequestToBatch ::
  "string \<Rightarrow> ('b, 'h, 'x) options \<Rightarrow> ('b, 'h, 'x) state \<Rightarrow> nat \<times> ('b, 'h, 'x) state" where
  "addRequestToBatch batchId opts s =
     (let b = (case awaitingBatches s batchId of
                 None \<Rightarrow> \<lparr>promise = Null, requests = []\<rparr>
               | Some b \<Rightarrow> b);
          b' = b\<lparr>requests := requests b @ [opts]\<rparr>
      in (length (requests b') - 1,
          s\<lparr>awaitingBatches := (awaitingBatches s)(batchId \<mapsto> b')\<rparr>))"

text \<open>
  \<open>setTimeout\<close> with the callback \<open>() => resolve( commit( batchId ) )\<close>: the timeout is
  queued behind the pending ones and its handle is returned.
\<close>

definition setTimeout ::
  "string \<Rightarrow> nat \<Rightarrow> nat \<Rightarrow> ('b, 'h, 'x) state \<Rightarrow> jsval \<times> ('b, 'h, 'x) state" where
  "setTimeout batchId p delay s =
     (TimerId (nextTimerId s),
      s\<lparr>timers := timers s @
           [\<lparr>timer_id = nextTimerId s, timer_due = now s + delay,
             timer_batch = batchId, timer_promise = p\<rparr>],
        nextTimerId := Suc (nextTimerId s)\<rparr>)"

text \<open>
  \<open>clearTimeout\<close> cancels the timeout with the given handle. Any other argument (\<open>null\<close>,
  an object such as a promise) names no timeout and the call does nothing.
\<close>

fun clearTimeout :: "jsval \<Rightarrow> ('b, 'h, 'x) state \<Rightarrow> ('b, 'h, 'x) state" where
  "clearTimeout (TimerId t) s = s\<lparr>timers := filter (\<lambda>tm. timer_id tm \<noteq> t) (timers s)\<rparr>"
| "clearTimeout v s = s"

text \<open>
  \<open>apiFetch\<close> is the transport, outside the module: the call is recorded and its promise is
  named by the position of the call.
\<close>

definition apiFetch ::
  "('b, 'h) fetch_options \<Rightarrow> ('b, 'h, 'x) state \<Rightarrow> jsval \<times> ('b, 'h, 'x) state" where
  "apiFetch req s = (FetchPromise (length (fetches s)), s\<lparr>fetches := fetches s @ [req]\<rparr>)"

text \<open>
  The executor of \<open>new Promise\<close> runs at once, so the timeout is set inside the call. The
  handle \<open>setTimeout\<close> returns is dropped; what the batch keeps is the promise.
\<close>

definition commitEventually ::
  "string \<Rightarrow> ('b, 'h, 'x) state \<Rightarrow> (error + jsval) \<times> ('b, 'h, 'x) state" where
  "commitEventually batchId s =
     (case awaitingBatches s batchId of
        None \<Rightarrow> (Inl TypeError, s)
      | Some batch \<Rightarrow>
          if promise batch = Null then
            (let p = nextPromiseId s;
                 s1 = s\<lparr>nextPromiseId := Suc p\<rparr>;
                 (handle, s2) = setTimeout batchId p BATCH_TIME_WINDOW s1;
                 s3 = s2\<lparr>awaitingBatches :=
                          (awaitingBatches s2)(batchId \<mapsto> batch\<lparr>promise := TimerPromise p\<rparr>)\<rparr>
             in (Inr (TimerPromise p), s3))
          else (Inr (promise batch), s))"

definition commit ::
  "string \<Rightarrow> ('b, 'h, 'x) state \<Rightarrow> (error + jsval) \<times> ('b, 'h, 'x) state" where
  "commit batchId s =
     (let unitOfWork = awaitingBatches s batchId;
          s1 = s\<lparr>awaitingBatches := (awaitingBatches s)(batchId := None)\<rparr>
      in case unitOfWork of
           None \<Rightarrow> (Inl TypeError, s1)
         | Some u \<Rightarrow>
             (let s2 = clearTimeout (promise u) s1;
                  reqs = map (\<lambda>options. \<lparr>sub_path = path options, sub_body = body options,
                                          sub_headers = headers options\<rparr>) (requests u)
              in case apiFetch \<lparr>fetch_path = ''/wp/__experimental/batch'',
                                fetch_method = ''POST'',
                                fetch_data = \<lparr>validation = ''require-all-validate'',
                                              data_requests = reqs\<rparr>\<rparr> s2 of
                   (p, s3) \<Rightarrow> (Inr p, s3)))"

text \<open>
  What the middleware returns: the result of \<open>next\<close>, or the promise
  \<open>save( batchId ).then( ( subResponses ) => subResponses[ requestIdx ] )\<close>.
  Calling \<open>then\<close> on \<open>null\<close> or on a number raises.
\<close>

datatype 'r result = Forwarded 'r | ThenIndex jsval nat

definition then_index :: "jsval \<Rightarrow> nat \<Rightarrow> error + 'r result" where
  "then_index v idx =
     (case v of
        TimerPromise p \<Rightarrow> Inr (ThenIndex v idx)
      | FetchPromise k \<Rightarrow> Inr (ThenIndex v idx)
      | _ \<Rightarrow> Inl TypeError)"

definition batchRequestMiddleware ::
  "('b, 'h, 'x) options \<Rightarrow> (('b, 'h, 'x) options \<Rightarrow> 'r) \<Rightarrow> ('b, 'h, 'x) state
     \<Rightarrow> (error + 'r result) \<times> ('b, 'h, 'x) state" where
  "batchRequestMiddleware opts next s =
     (let forward = (Inr (Forwarded (next opts)), s\<lparr>nextCalls := nextCalls s @ [opts]\<rparr>)
      in if method opts \<notin> {Some ''POST'', Some ''PUT'', Some ''PATCH'', Some ''DELETE''}
         then forward
         else if batchAs opts = None \<or> batchAs opts = Some [] then forward
         else case endpointSupportsBatch (path opts) of
                Inl e \<Rightarrow> (Inl e, s)
              | Inr False \<Rightarrow> forward
              | Inr True \<Rightarrow>
                  (let batchId = JSON_stringify [batchAs opts, method opts];
                       (requestIdx, s1) = addRequestToBatch batchId opts s;
                       save = (if requestIdx + 1 \<ge> MAX_BATCH_SIZE then commit
                               else commitEventually)
                   in case save batchId s1 of
                        (Inl e, s2) \<Rightarrow> (Inl e, s2)
                      | (Inr v, s2) \<Rightarrow> (then_index v requestIdx, s2)))"

subsection \<open>Timers and the event loop\<close>

text \<open>
  \<open>resolve\<close> of a promise that has been resolved already does nothing. The callback of a
  timeout is \<open>() => resolve( commit( batchId ) )\<close>: when \<open>commit\<close> raises, \<open>resolve\<close> is
  not reached, the exception leaves the callback and the promise stays as it is.
\<close>

definition resolve :: "nat \<Rightarrow> jsval \<Rightarrow> ('b, 'h, 'x) state \<Rightarrow> ('b, 'h, 'x) state" where
  "resolve p v s = (if resolved s p = None then s\<lparr>resolved := (resolved s)(p \<mapsto> v)\<rparr> else s)"

definition fire :: "timer \<Rightarrow> ('b, 'h, 'x) state \<Rightarrow> ('b, 'h, 'x) state" where
  "fire tm s =
     (case commit (timer_batch tm) s of
        (Inl e, s') \<Rightarrow> s'\<lparr>uncaught := uncaught s' @ [e]\<rparr>
      | (Inr v, s') \<Rightarrow> resolve (timer_promise tm) v s')"

text \<open>
  A timeout that is due runs once, at its due time, unless it has been cancelled in the
  meantime. When \<open>d\<close> milliseconds pass, the timeouts due by then run in the order they
  were scheduled, which is the order of their due times since every delay is the same.
\<close>

definition run_timer :: "timer \<Rightarrow> ('b, 'h, 'x) state \<Rightarrow> ('b, 'h, 'x) state" where
  "run_timer tm s =
     (if tm \<in> set (timers s)
      then fire tm (s\<lparr>timers := removeAll tm (timers s), now := max (now s) (timer_due tm)\<rparr>)
      else s)"

definition elapse :: "nat \<Rightarrow> ('b, 'h, 'x) state \<Rightarrow> ('b, 'h, 'x) state" where
  "elapse d s =
     (let t = now s + d
      in (fold run_timer (filter (\<lambda>tm. timer_due tm \<le> t) (timers s)) s)\<lparr>now := t\<rparr>)"

text \<open>
  A run of the program: calls of the middleware and passages of time. The values the
  middleware has returned (or the exception it has raised) are collected in call order.
\<close>

datatype ('b, 'h, 'x) event = Request "('b, 'h, 'x) options" | Elapse nat

fun step ::
  "(('b, 'h, 'x) options \<Rightarrow> 'r) \<Rightarrow> ('b, 'h, 'x) event
     \<Rightarrow> ('b, 'h, 'x) state \<times> (error + 'r result) list
     \<Rightarrow> ('b, 'h, 'x) state \<times> (error + 'r result) list" where
  "step next (Request opts) (s, out) =
     (case batchRequestMiddleware opts next s of (r, s') \<Rightarrow> (s', out @ [r]))"
| "step next (Elapse d) (s, out) = (elapse d s, out)"

definition run ::
  "(('b, 'h, 'x) options \<Rightarrow> 'r) \<Rightarrow> ('b, 'h, 'x) event list
     \<Rightarrow> ('b, 'h, 'x) state \<Rightarrow> ('b, 'h, 'x) state \<times> (error + 'r result) list" where
  "run next evs s = fold (step next) evs (s, [])"

subsection \<open>Settlement of promises\<close>

text \<open>
  The transport settles the promise of its \<open>k\<close>-th call with a list of sub-responses or
  rejects it with an error; \<open>tr k = None\<close> while it has done neither. A promise of
  \<open>commitEventually\<close> follows the promise it has been resolved with, which is always one
  returned by \<open>apiFetch\<close> (lemma \<open>run_resolved_by_fetch\<close> below); until then it is pending.
  \<open>caller_outcome tr s v idx\<close> is the state of \<open>v.then( ( subResponses ) =>
  subResponses[ idx ] )\<close>: \<open>subResponses[ idx ]\<close> is \<open>undefined\<close> (\<open>None\<close>) beyond the end of the list, and a
  rejection passes through \<open>then\<close> unchanged, since \<open>then\<close> is given no second callback.
\<close>

datatype ('e, 'a) outcome = Fulfilled 'a | Rejected 'e

definition settled ::
  "(nat \<Rightarrow> ('e, 'v list) outcome option) \<Rightarrow> ('b, 'h, 'x) state \<Rightarrow> jsval
     \<Rightarrow> ('e, 'v list) outcome option" where
  "settled tr s v =
     (case v of
        FetchPromise k \<Rightarrow> (if k < length (fetches s) then tr k else None)
      | TimerPromise p \<Rightarrow>
          (case resolved s p of
             Some (FetchPromise k) \<Rightarrow> (if k < length (fetches s) then tr k else None)
           | _ \<Rightarrow> None)
      | _ \<Rightarrow> None)"

definition subscript :: "'v list \<Rightarrow> nat \<Rightarrow> 'v option" where
  "subscript xs i = (if i < length xs then Some (xs ! i) else None)"

definition caller_outcome ::
  "(nat \<Rightarrow> ('e, 'v list) outcome option) \<Rightarrow> ('b, 'h, 'x) state \<Rightarrow> jsval \<Rightarrow> nat
     \<Rightarrow> ('e, 'v option) outcome option" where
  "caller_outcome tr s v idx =
     (case settled tr s v of
        None \<Rightarrow> None
      | Some (Rejected e) \<Rightarrow> Some (Rejected e)
      | Some (Fulfilled subResponses) \<Rightarrow> Some (Fulfilled (subscript subResponses idx)))"

subsection \<open>Notions used in the statements\<close>

text \<open>
  The guard of the middleware, read positively: the request is batched when its method is
  one of the four verbs, its grouping tag is a non-empty string and its path is recognised.
\<close>

definition eligible :: "('b, 'h, 'x) options \<Rightarrow> bool" where
  "eligible opts \<longleftrightarrow>
     method opts \<in> {Some ''POST'', Some ''PUT'', Some ''PATCH'', Some ''DELETE''} \<and>
     batchAs opts \<noteq> None \<and> batchAs opts \<noteq> Some [] \<and>
     endpointSupportsBatch (path opts) = Inr True"

text \<open>The combined request \<open>commit\<close> builds from the requests of a batch.\<close>

definition combined_request :: "('b, 'h, 'x) options list \<Rightarrow> ('b, 'h) fetch_options" where
  "combined_request rs =
     \<lparr>fetch_path = ''/wp/__experimental/batch'', fetch_method = ''POST'',
      fetch_data = \<lparr>validation = ''require-all-validate'',
                    data_requests = map (\<lambda>options. \<lparr>sub_path = path options,
                      sub_body = body options, sub_headers = headers options\<rparr>) rs\<rparr>\<rparr>"

text \<open>
  What a step that only flushes can do: it leaves the calls of \<open>next\<close> alone, every call of
  the transport it adds is a combined request, it creates no promise, and a batch is either
  left as it is or removed.
\<close>

definition sends_only_batches :: "('b, 'h, 'x) state \<Rightarrow> ('b, 'h, 'x) state \<Rightarrow> bool" where
  "sends_only_batches s s' \<longleftrightarrow>
     nextCalls s' = nextCalls s \<and>
     (\<exists>new. fetches s' = fetches s @ new \<and>
        (\<forall>f \<in> set new. \<exists>rs :: ('b, 'h, 'x) options list. f = combined_request rs))"

definition only_flushes :: "('b, 'h, 'x) state \<Rightarrow> ('b, 'h, 'x) state \<Rightarrow> bool" where
  "only_flushes s s' \<longleftrightarrow>
     sends_only_batches s s' \<and> nextPromiseId s' = nextPromiseId s \<and>
     (\<forall>b. awaitingBatches s' b = None \<or> awaitingBatches s' b = awaitingBatches s b)"

text \<open>Requests that follow one another, each after a delay.\<close>

fun spaced :: "(nat \<times> ('b, 'h, 'x) options) list \<Rightarrow> ('b, 'h, 'x) event list" where
  "spaced [] = []"
| "spaced ((d, r) # drs) = Elapse d # Request r # spaced drs"

text \<open>
  Facts that hold in every state the program reaches (lemma \<open>well_formed_run\<close>): a
  registered batch holds the promise of its eventual flush, and the promises that timeouts
  will resolve, like those already resolved, have been created before.
\<close>

definition well_formed :: "('b, 'h, 'x) state \<Rightarrow> bool" where
  "well_formed s \<longleftrightarrow>
     (\<forall>b u. awaitingBatches s b = Some u \<longrightarrow> (\<exists>q. promise u = TimerPromise q)) \<and>
     (\<forall>tm \<in> set (timers s). timer_promise tm < nextPromiseId s) \<and>
     (\<forall>p v. resolved s p = Some v \<longrightarrow> p < nextPromiseId s)"

text \<open>
  The timeout that the first request of a batch sets when it is made in \<open>s0\<close> under the
  key \<open>key\<close>, the timeouts that have nothing to do with that batch, and the combined
  requests that flush a batch registered in \<open>s0\<close> under another key.
\<close>

definition window_timer :: "('b, 'h, 'x) state \<Rightarrow> string \<Rightarrow> timer" where
  "window_timer s0 key =
     \<lparr>timer_id = nextTimerId s0, timer_due = now s0 + BATCH_TIME_WINDOW,
      timer_batch = key, timer_promise = nextPromiseId s0\<rparr>"

definition foreign :: "('b, 'h, 'x) state \<Rightarrow> string \<Rightarrow> timer \<Rightarrow> bool" where
  "foreign s0 key tm \<longleftrightarrow> timer_batch tm \<noteq> key \<and> timer_promise tm \<noteq> nextPromiseId s0"

definition other_flush ::
  "('b, 'h, 'x) state \<Rightarrow> string \<Rightarrow> ('b, 'h) fetch_options \<Rightarrow> bool" where
  "other_flush s0 key f \<longleftrightarrow>
     (\<exists>b u. b \<noteq> key \<and> awaitingBatches s0 b = Some u \<and> f = combined_request (requests u))"

text \<open>
  \<open>pending s0 key qs s\<close>: in \<open>s\<close> the batch opened in \<open>s0\<close> under \<open>key\<close> holds the
  requests \<open>qs\<close> and waits for its timeout, which is the last one pending; the other
  batches are as in \<open>s0\<close> or gone, and the transport has been called since \<open>s0\<close> only to
  flush other batches, at most once for each timeout that was pending in \<open>s0\<close>.
  \<open>flushed s0 key qs s\<close>: the batch has been sent, in the last call made to the transport,
  and its promise has been resolved with the promise of that call.
\<close>

definition pending ::
  "('b, 'h, 'x) state \<Rightarrow> string \<Rightarrow> ('b, 'h, 'x) options list \<Rightarrow> ('b, 'h, 'x) state \<Rightarrow> bool" where
  "pending s0 key qs s \<longleftrightarrow>
     awaitingBatches s key = Some \<lparr>promise = TimerPromise (nextPromiseId s0), requests = qs\<rparr> \<and>
     resolved s (nextPromiseId s0) = None \<and>
     (\<forall>b u. awaitingBatches s b = Some u \<longrightarrow> (\<exists>q. promise u = TimerPromise q)) \<and>
     (\<forall>b. b \<noteq> key \<longrightarrow> awaitingBatches s b = None \<or> awaitingBatches s b = awaitingBatches s0 b) \<and>
     (\<exists>fs others. timers s = fs @ [window_timer s0 key] \<and> (\<forall>tm \<in> set fs. foreign s0 key tm) \<and>
        fetches s = fetches s0 @ others \<and> length others + length fs \<le> length (timers s0) \<and>
        (\<forall>f \<in> set others. other_flush s0 key f))"

definition flushed ::
  "('b, 'h, 'x) state \<Rightarrow> string \<Rightarrow> ('b, 'h, 'x) options list \<Rightarrow> ('b, 'h, 'x) state \<Rightarrow> bool" where
  "flushed s0 key qs s \<longleftrightarrow>
     awaitingBatches s key = None \<and>
     (\<exists>others. fetches s = fetches s0 @ others @ [combined_request qs] \<and>
        length others \<le> length (timers s0) \<and>
        (\<forall>f \<in> set others. other_flush s0 key f) \<and>
        resolved s (nextPromiseId s0) = Some (FetchPromise (length (fetches s0) + length others)))"

text \<open>Sample requests, for the concrete instances below.\<close>

definition template_part :: "nat \<Rightarrow> (nat, string, bool) options" where
  "template_part n =
     \<lparr>method = Some ''POST'', batchAs = Some ''g1'', path = Some ''/wp/v2/template-parts/7'',
      body = n, headers = ''X-WP-Nonce: 1'', others = True\<rparr>"

definition post_update :: "(nat, string, bool) options" where
  "post_update =
     \<lparr>method = Some ''POST'', batchAs = Some ''g1'', path = Some ''/wp/v2/posts/7'',
      body = 1, headers = ''X-WP-Nonce: 1'', others = True\<rparr>"

text \<open>A transport that rejects every call with the same error.\<close>

definition transport_rejects :: "nat \<Rightarrow> (string, string list) outcome option" where
  "transport_rejects k = Some (Rejected ''E'')"

text \<open>A transport that answers every call with three sub-responses.\<close>

definition transport_answers :: "nat \<Rightarrow> (string, string list) outcome option" where
  "transport_answers k = Some (Fulfilled [''respA'', ''respB'', ''respC''])"

text \<open>
  Every promise of \<open>commitEventually\<close> that has been resolved has been resolved with the
  promise of a transport call that has been made.
\<close>

definition resolved_by_fetch :: "('b, 'h, 'x) state \<Rightarrow> bool" where
  "resolved_by_fetch s \<longleftrightarrow>
     (\<forall>p v. resolved s p = Some v \<longrightarrow> (\<exists>k. v = FetchPromise k \<and> k < length (fetches s)))"

section \<open>Batch keys\<close>

text \<open>
  The serialisation is uniquely decodable: an escaped character followed by anything
  determines the character and what follows it.
\<close>

lemma hex_digit_inj:
  assumes "a < 16" "b < 16" "hex_digit a = hex_digit b"
  shows "a = b"
proof -
  let ?f = "\<lambda>n::nat. if n < 10 then 48 + n else 87 + n"
  have "hex_digit a = char_of (?f a)" "hex_digit b = char_of (?f b)"
    by (simp_all add: hex_digit_def)
  with assms(3) have "(of_char (char_of (?f a) :: char) :: nat) = of_char (char_of (?f b) :: char)"
    by simp
  then have "?f a mod 256 = ?f b mod 256"
    by (simp only: of_char_of)
  moreover have "?f a < 256" "?f b < 256" using assms(1,2) by auto
  ultimately have "?f a = ?f b" by simp
  then show ?thesis by (auto split: if_splits)
qed

lemma of_char_from_nibbles:
  assumes "(of_char c :: nat) div 16 = of_char d div 16" "(of_char c :: nat) mod 16 = of_char d mod 16"
  shows "c = d"
proof -
  have "(of_char c :: nat) = of_char d"
    using assms by (metis div_mult_mod_eq)
  then show ?thesis by simp
qed

lemma escape_char_cont:
  assumes "escape_char c @ r = escape_char d @ r'"
  shows "c = d \<and> r = r'"
proof -
  have low: "c = d"
    if "(of_char c :: nat) < 32" "(of_char d :: nat) < 32"
       "hex_digit (of_char c div 16) = hex_digit (of_char d div 16)"
       "hex_digit (of_char c mod 16) = hex_digit (of_char d mod 16)"
  proof -
    have "(of_char c :: nat) div 16 = of_char d div 16"
      using that(1,2,3) by (intro hex_digit_inj) auto
    moreover have "(of_char c :: nat) mod 16 = of_char d mod 16"
      using that(4) by (intro hex_digit_inj) auto
    ultimately show ?thesis by (rule of_char_from_nibbles)
  qed
  show ?thesis
    using assms low by (auto simp: escape_char_def split: if_splits)
qed

lemma escape_char_not_quote: "escape_char c @ r \<noteq> CHR 0x22 # r'"
  by (auto simp: escape_char_def)

lemma concat_escape_cont:
  "concat (map escape_char a) @ CHR 0x22 # r = concat (map escape_char b) @ CHR 0x22 # r'
     \<Longrightarrow> a = b \<and> r = r'"
proof (induction a arbitrary: b)
  case Nil
  then show ?case
    by (cases b) (auto simp: escape_char_not_quote[symmetric])
next
  case (Cons c cs)
  show ?case
  proof (cases b)
    case Nil
    with Cons.prems show ?thesis by (auto simp: escape_char_not_quote)
  next
    case (Cons d ds)
    with Cons.prems
    have "escape_char c @ (concat (map escape_char cs) @ CHR 0x22 # r)
          = escape_char d @ (concat (map escape_char ds) @ CHR 0x22 # r')"
      by simp
    then have "c = d" and "concat (map escape_char cs) @ CHR 0x22 # r = concat (map escape_char ds) @ CHR 0x22 # r'"
      using escape_char_cont by blast+
    with Cons.IH[of ds] Cons show ?thesis by simp
  qed
qed

lemma QuoteJSONString_cont:
  assumes "QuoteJSONString x @ r = QuoteJSONString y @ r'"
  shows "x = y \<and> r = r'"
proof -
  from assms
  have "concat (map escape_char x) @ CHR 0x22 # r = concat (map escape_char y) @ CHR 0x22 # r'"
    by (simp add: QuoteJSONString_def)
  then show ?thesis by (rule concat_escape_cont)
qed

lemma QuoteJSONString_not_null: "QuoteJSONString x @ r \<noteq> ''null'' @ r'"
  by (simp add: QuoteJSONString_def)

lemma SerializeJSONProperty_cont:
  assumes "SerializeJSONProperty x @ r = SerializeJSONProperty y @ r'"
  shows "x = y \<and> r = r'"
proof (cases x)
  case None
  show ?thesis
  proof (cases y)
    case None
    with \<open>x = None\<close> assms show ?thesis by (simp add: SerializeJSONProperty_def)
  next
    case (Some b)
    with \<open>x = None\<close> assms QuoteJSONString_not_null[of b r' r] show ?thesis
      by (simp add: SerializeJSONProperty_def)
  qed
next
  case (Some a)
  show ?thesis
  proof (cases y)
    case None
    with \<open>x = Some a\<close> assms QuoteJSONString_not_null[of a r r'] show ?thesis
      by (simp add: SerializeJSONProperty_def)
  next
    case (Some b)
    with \<open>x = Some a\<close> assms have "QuoteJSONString a @ r = QuoteJSONString b @ r'"
      by (simp add: SerializeJSONProperty_def)
    then have "a = b \<and> r = r'" by (rule QuoteJSONString_cont)
    with \<open>x = Some a\<close> Some show ?thesis by simp
  qed
qed

lemma JSON_stringify_pair_inj:
  "JSON_stringify [a, m] = JSON_stringify [a', m'] \<Longrightarrow> a = a' \<and> m = m'"
proof -
  assume "JSON_stringify [a, m] = JSON_stringify [a', m']"
  then have "SerializeJSONProperty a @ (CHR '','' # SerializeJSONProperty m @ '']'')
           = SerializeJSONProperty a' @ (CHR '','' # SerializeJSONProperty m' @ '']'')"
    by (simp add: JSON_stringify_def)
  then have "a = a'" and "SerializeJSONProperty m @ '']'' = SerializeJSONProperty m' @ '']''"
    using SerializeJSONProperty_cont by blast+
  then show ?thesis using SerializeJSONProperty_cont by blast
qed

section \<open>What one call does\<close>

text \<open>
  \<open>clearTimeout\<close> touches the pending timeouts only, and not even those when its argument
  is a promise or \<open>null\<close>.
\<close>

lemma clearTimeout_fields [simp]:
  "awaitingBatches (clearTimeout v s) = awaitingBatches s"
  "fetches (clearTimeout v s) = fetches s"
  "nextCalls (clearTimeout v s) = nextCalls s"
  "resolved (clearTimeout v s) = resolved s"
  "uncaught (clearTimeout v s) = uncaught s"
  "now (clearTimeout v s) = now s"
  "nextPromiseId (clearTimeout v s) = nextPromiseId s"
  "nextTimerId (clearTimeout v s) = nextTimerId s"
  by (cases v; simp)+

lemma clearTimeout_promise [simp]:
  "clearTimeout Null s = s" "clearTimeout (TimerPromise p) s = s" "clearTimeout (FetchPromise k) s = s"
  by simp_all

lemma commit_Some:
  assumes "awaitingBatches s batchId = Some u"
  shows "commit batchId s =
    (Inr (FetchPromise (length (fetches s))),
     (clearTimeout (promise u) (s\<lparr>awaitingBatches := (awaitingBatches s)(batchId := None)\<rparr>))
       \<lparr>fetches := fetches s @ [combined_request (requests u)]\<rparr>)"
  using assms by (simp add: commit_def apiFetch_def combined_request_def Let_def)

lemma commit_None:
  assumes "awaitingBatches s batchId = None"
  shows "commit batchId s = (Inl TypeError, s)"
proof -
  have "(awaitingBatches s)(batchId := None) = awaitingBatches s"
    using assms by auto
  then show ?thesis using assms by (simp add: commit_def)
qed

lemma middleware_eligible:
  assumes "eligible opts"
  shows "batchRequestMiddleware opts next s =
     (let batchId = JSON_stringify [batchAs opts, method opts];
          (requestIdx, s1) = addRequestToBatch batchId opts s;
          save = (if requestIdx + 1 \<ge> MAX_BATCH_SIZE then commit else commitEventually)
      in case save batchId s1 of
           (Inl e, s2) \<Rightarrow> (Inl e, s2)
         | (Inr v, s2) \<Rightarrow> (then_index v requestIdx, s2))"
  using assms by (auto simp: batchRequestMiddleware_def eligible_def Let_def)

lemma middleware_first:
  assumes "eligible opts" and "awaitingBatches s (JSON_stringify [batchAs opts, method opts]) = None"
  shows "batchRequestMiddleware opts next s =
     (Inr (ThenIndex (TimerPromise (nextPromiseId s)) 0),
      s\<lparr>awaitingBatches := (awaitingBatches s)(JSON_stringify [batchAs opts, method opts] \<mapsto>
            \<lparr>promise = TimerPromise (nextPromiseId s), requests = [opts]\<rparr>),
        timers := timers s @ [\<lparr>timer_id = nextTimerId s, timer_due = now s + BATCH_TIME_WINDOW,
            timer_batch = JSON_stringify [batchAs opts, method opts], timer_promise = nextPromiseId s\<rparr>],
        nextTimerId := Suc (nextTimerId s),
        nextPromiseId := Suc (nextPromiseId s)\<rparr>)"
  using assms
  by (simp add: middleware_eligible addRequestToBatch_def commitEventually_def setTimeout_def
      then_index_def MAX_BATCH_SIZE_def Let_def)

lemma middleware_join:
  assumes "eligible opts"
    and "awaitingBatches s (JSON_stringify [batchAs opts, method opts]) = Some u"
    and "promise u = TimerPromise p"
    and "length (requests u) + 1 < MAX_BATCH_SIZE"
  shows "batchRequestMiddleware opts next s =
     (Inr (ThenIndex (TimerPromise p) (length (requests u))),
      s\<lparr>awaitingBatches := (awaitingBatches s)(JSON_stringify [batchAs opts, method opts] \<mapsto>
            u\<lparr>requests := requests u @ [opts]\<rparr>)\<rparr>)"
  using assms
  by (simp add: middleware_eligible addRequestToBatch_def commitEventually_def
      then_index_def Let_def)

lemma middleware_full:
  assumes "eligible opts"
    and "awaitingBatches s (JSON_stringify [batchAs opts, method opts]) = Some u"
    and "MAX_BATCH_SIZE \<le> length (requests u) + 1"
  shows "batchRequestMiddleware opts next s =
     (Inr (ThenIndex (FetchPromise (length (fetches s))) (length (requests u))),
      (clearTimeout (promise u) (s\<lparr>awaitingBatches :=
           (awaitingBatches s)(JSON_stringify [batchAs opts, method opts] := None)\<rparr>))
        \<lparr>fetches := fetches s @ [combined_request (requests u @ [opts])]\<rparr>)"
  using assms
  by (simp add: middleware_eligible addRequestToBatch_def commit_Some
      then_index_def Let_def)

lemma resolve_fields [simp]:
  "awaitingBatches (resolve p v s) = awaitingBatches s"
  "fetches (resolve p v s) = fetches s"
  "nextCalls (resolve p v s) = nextCalls s"
  "uncaught (resolve p v s) = uncaught s"
  "timers (resolve p v s) = timers s"
  "now (resolve p v s) = now s"
  "nextPromiseId (resolve p v s) = nextPromiseId s"
  "nextTimerId (resolve p v s) = nextTimerId s"
  by (simp_all add: resolve_def)

lemma fire_None:
  assumes "awaitingBatches s (timer_batch tm) = None"
  shows "fire tm s = s\<lparr>uncaught := uncaught s @ [TypeError]\<rparr>"
  using assms by (simp add: fire_def commit_None)

lemma fire_Some:
  assumes "awaitingBatches s (timer_batch tm) = Some u"
  shows "fire tm s =
     resolve (timer_promise tm) (FetchPromise (length (fetches s)))
       ((clearTimeout (promise u)
           (s\<lparr>awaitingBatches := (awaitingBatches s)(timer_batch tm := None)\<rparr>))
          \<lparr>fetches := fetches s @ [combined_request (requests u)]\<rparr>)"
  using assms by (simp add: fire_def commit_Some)

subsection \<open>Frames\<close>

lemma commitEventually_frame:
  "nextCalls (snd (commitEventually b s)) = nextCalls s"
  "fetches (snd (commitEventually b s)) = fetches s"
  "b' \<noteq> b \<Longrightarrow> awaitingBatches (snd (commitEventually b s)) b' = awaitingBatches s b'"
  "awaitingBatches s b = None \<Longrightarrow> awaitingBatches (snd (commitEventually b s)) b = None"
  "awaitingBatches s b = Some u \<Longrightarrow>
     \<exists>u'. awaitingBatches (snd (commitEventually b s)) b = Some u' \<and> requests u' = requests u"
  by (simp_all add: commitEventually_def setTimeout_def Let_def split: option.splits)

lemma commit_frame:
  "nextCalls (snd (commit b s)) = nextCalls s"
  "awaitingBatches (snd (commit b s)) b' = (if b' = b then None else awaitingBatches s b')"
  by (simp_all add: commit_def apiFetch_def Let_def split: option.splits)

lemma addRequestToBatch_frame:
  "nextCalls (snd (addRequestToBatch b opts s)) = nextCalls s"
  "fetches (snd (addRequestToBatch b opts s)) = fetches s"
  "b' \<noteq> b \<Longrightarrow> awaitingBatches (snd (addRequestToBatch b opts s)) b' = awaitingBatches s b'"
  by (simp_all add: addRequestToBatch_def Let_def)

lemma addRequestToBatch_own:
  "\<exists>u'. awaitingBatches (snd (addRequestToBatch b opts s)) b = Some u' \<and>
     requests u' = (case awaitingBatches s b of None \<Rightarrow> [] | Some u \<Rightarrow> requests u) @ [opts]"
  by (simp add: addRequestToBatch_def Let_def split: option.splits)

lemma middleware_eligible_snd:
  assumes "eligible opts"
  shows "snd (batchRequestMiddleware opts next s) =
     (let batchId = JSON_stringify [batchAs opts, method opts];
          s1 = snd (addRequestToBatch batchId opts s)
      in if fst (addRequestToBatch batchId opts s) + 1 \<ge> MAX_BATCH_SIZE
         then snd (commit batchId s1) else snd (commitEventually batchId s1))"
  using assms
  by (simp add: middleware_eligible Let_def split: prod.splits sum.splits)

lemma middleware_ineligible_snd:
  assumes "\<not> eligible opts"
  shows "snd (batchRequestMiddleware opts next s) = s
       \<or> snd (batchRequestMiddleware opts next s) = s\<lparr>nextCalls := nextCalls s @ [opts]\<rparr>"
  using assms
  by (auto simp: batchRequestMiddleware_def eligible_def Let_def endpointSupportsBatch_def
      split: sum.splits bool.splits option.splits)

lemma middleware_registry_other:
  assumes "b \<noteq> JSON_stringify [batchAs opts, method opts]"
  shows "awaitingBatches (snd (batchRequestMiddleware opts next s)) b = awaitingBatches s b"
proof (cases "eligible opts")
  case True
  then show ?thesis using assms
    by (simp add: middleware_eligible_snd Let_def commit_frame commitEventually_frame
        addRequestToBatch_frame)
next
  case False
  then show ?thesis using middleware_ineligible_snd[OF False, of "next" s] by auto
qed

subsection \<open>Steps that only send batches\<close>

lemma sends_only_batches_refl:
  fixes s :: "('b, 'h, 'x) state"
  shows "sends_only_batches s s"
  by (simp add: sends_only_batches_def)

lemma sends_only_batches_trans:
  fixes s :: "('b, 'h, 'x) state"
  assumes "sends_only_batches s s'" and "sends_only_batches s' s''"
  shows "sends_only_batches s s''"
proof -
  from assms(1) obtain new where n1: "fetches s' = fetches s @ new"
    "\<forall>f \<in> set new. \<exists>rs :: ('b, 'h, 'x) options list. f = combined_request rs"
    unfolding sends_only_batches_def by blast
  from assms(2) obtain new' where n2: "fetches s'' = fetches s' @ new'"
    "\<forall>f \<in> set new'. \<exists>rs :: ('b, 'h, 'x) options list. f = combined_request rs"
    unfolding sends_only_batches_def by blast
  have "fetches s'' = fetches s @ (new @ new')" using n1 n2 by simp
  moreover have "\<forall>f \<in> set (new @ new'). \<exists>rs :: ('b, 'h, 'x) options list. f = combined_request rs"
    using n1 n2 by auto
  moreover have "nextCalls s'' = nextCalls s"
    using assms by (simp add: sends_only_batches_def)
  ultimately show ?thesis unfolding sends_only_batches_def by blast
qed

lemma sends_only_batches_same:
  fixes s :: "('b, 'h, 'x) state"
  assumes "nextCalls s' = nextCalls s" and "fetches s' = fetches s"
  shows "sends_only_batches s s'"
  using assms by (simp add: sends_only_batches_def)

lemma sends_only_batches_one:
  fixes s :: "('b, 'h, 'x) state" and rs :: "('b, 'h, 'x) options list"
  assumes "nextCalls s' = nextCalls s" and "fetches s' = fetches s @ [combined_request rs]"
  shows "sends_only_batches s s'"
proof -
  have "\<forall>f \<in> set [combined_request rs]. \<exists>rs' :: ('b, 'h, 'x) options list. f = combined_request rs'"
    by auto
  with assms show ?thesis unfolding sends_only_batches_def by blast
qed

lemma only_flushes_refl:
  fixes s :: "('b, 'h, 'x) state"
  shows "only_flushes s s"
  by (simp add: only_flushes_def sends_only_batches_refl)

lemma only_flushes_trans:
  fixes s :: "('b, 'h, 'x) state"
  assumes "only_flushes s s'" and "only_flushes s' s''"
  shows "only_flushes s s''"
proof -
  have "sends_only_batches s s''"
    using assms sends_only_batches_trans unfolding only_flushes_def by blast
  moreover have "\<forall>b. awaitingBatches s'' b = None \<or> awaitingBatches s'' b = awaitingBatches s b"
  proof
    fix b
    from assms(1) have a: "awaitingBatches s' b = None \<or> awaitingBatches s' b = awaitingBatches s b"
      by (simp add: only_flushes_def)
    from assms(2) have b: "awaitingBatches s'' b = None \<or> awaitingBatches s'' b = awaitingBatches s' b"
      by (simp add: only_flushes_def)
    from a b show "awaitingBatches s'' b = None \<or> awaitingBatches s'' b = awaitingBatches s b"
      by auto
  qed
  moreover have "nextPromiseId s'' = nextPromiseId s"
    using assms by (simp add: only_flushes_def)
  ultimately show ?thesis by (simp add: only_flushes_def)
qed

lemma only_flushes_fire:
  fixes s :: "('b, 'h, 'x) state"
  shows "only_flushes s (fire tm s)"
proof (cases "awaitingBatches s (timer_batch tm)")
  case None
  then show ?thesis by (simp add: fire_None only_flushes_def sends_only_batches_same)
next
  case (Some u)
  have "sends_only_batches s (fire tm s)"
    by (rule sends_only_batches_one[where rs = "requests u"]) (simp_all add: fire_Some[OF Some])
  then show ?thesis by (simp add: only_flushes_def fire_Some[OF Some])
qed

lemma only_flushes_run_timer:
  fixes s :: "('b, 'h, 'x) state"
  shows "only_flushes s (run_timer tm s)"
proof (cases "tm \<in> set (timers s)")
  case True
  let ?s1 = "s\<lparr>timers := removeAll tm (timers s), now := max (now s) (timer_due tm)\<rparr>"
  have "only_flushes s ?s1" by (simp add: only_flushes_def sends_only_batches_same)
  moreover have "only_flushes ?s1 (fire tm ?s1)" by (rule only_flushes_fire)
  ultimately have "only_flushes s (fire tm ?s1)" by (rule only_flushes_trans)
  with True show ?thesis by (simp add: run_timer_def)
next
  case False
  then show ?thesis by (simp add: run_timer_def only_flushes_refl)
qed

lemma only_flushes_fold:
  fixes s :: "('b, 'h, 'x) state"
  shows "only_flushes s (fold run_timer tms s)"
proof (induction tms arbitrary: s)
  case Nil
  show ?case by (simp add: only_flushes_refl)
next
  case (Cons tm tms)
  have "only_flushes s (run_timer tm s)" by (rule only_flushes_run_timer)
  moreover have "only_flushes (run_timer tm s) (fold run_timer tms (run_timer tm s))"
    by (rule Cons.IH)
  ultimately have "only_flushes s (fold run_timer tms (run_timer tm s))"
    by (rule only_flushes_trans)
  then show ?case by simp
qed

lemma only_flushes_elapse:
  fixes s :: "('b, 'h, 'x) state"
  shows "only_flushes s (elapse d s)"
proof -
  let ?s1 = "fold run_timer (filter (\<lambda>tm. timer_due tm \<le> now s + d) (timers s)) s"
  have "only_flushes s ?s1" by (rule only_flushes_fold)
  moreover have "only_flushes ?s1 (?s1\<lparr>now := now s + d\<rparr>)"
    by (simp add: only_flushes_def sends_only_batches_same)
  ultimately have "only_flushes s (?s1\<lparr>now := now s + d\<rparr>)" by (rule only_flushes_trans)
  then show ?thesis by (simp add: elapse_def Let_def)
qed

lemma sends_only_batches_commit:
  fixes s :: "('b, 'h, 'x) state"
  shows "sends_only_batches s (snd (commit b s))"
proof (cases "awaitingBatches s b")
  case None
  then show ?thesis by (simp add: commit_None sends_only_batches_refl)
next
  case (Some u)
  show ?thesis
    by (rule sends_only_batches_one[where rs = "requests u"]) (simp_all add: commit_Some[OF Some])
qed

lemma sends_only_batches_middleware:
  fixes s :: "('b, 'h, 'x) state"
  assumes "eligible opts"
  shows "sends_only_batches s (snd (batchRequestMiddleware opts next s))"
proof -
  let ?b = "JSON_stringify [batchAs opts, method opts]"
  let ?s1 = "snd (addRequestToBatch ?b opts s)"
  have 1: "sends_only_batches s ?s1"
    by (rule sends_only_batches_same) (simp_all add: addRequestToBatch_frame)
  have 2: "sends_only_batches ?s1 (snd (commit ?b ?s1))"
    by (rule sends_only_batches_commit)
  have 3: "sends_only_batches ?s1 (snd (commitEventually ?b ?s1))"
    by (rule sends_only_batches_same) (simp_all add: commitEventually_frame)
  show ?thesis
    using sends_only_batches_trans[OF 1 2] sends_only_batches_trans[OF 1 3]
    by (simp add: middleware_eligible_snd[OF assms] Let_def)
qed

lemma middleware_not_forwarded:
  assumes "eligible opts"
  shows "fst (batchRequestMiddleware opts next s) \<noteq> Inr (Forwarded x)"
  using assms
  by (simp add: middleware_eligible Let_def then_index_def split: prod.splits sum.splits jsval.splits)

section \<open>Requests that are not batched\<close>

text \<open>
  Claim C4. A request whose method is not one of the four verbs, or whose grouping tag is
  absent or empty, or whose path does not contain \<open>/v2/template-parts\<close>, is handed to
  \<open>next\<close> once and as it is; the middleware returns what \<open>next\<close> returns and changes
  nothing else.
\<close>

theorem ineligible_forwarded_once:
  assumes "method opts \<notin> {Some ''POST'', Some ''PUT'', Some ''PATCH'', Some ''DELETE''}
           \<or> batchAs opts = None \<or> batchAs opts = Some []
           \<or> (\<exists>p. path opts = Some p \<and> indexOf p ''/v2/template-parts'' = - 1)"
  shows "batchRequestMiddleware opts next s =
           (Inr (Forwarded (next opts)), s\<lparr>nextCalls := nextCalls s @ [opts]\<rparr>)"
  using assms
  by (auto simp: batchRequestMiddleware_def endpointSupportsBatch_def Let_def)

theorem ineligible_forwarded_once_witness:
  "indexOf ''/wp/v2/posts/7'' ''/v2/template-parts'' = - 1 \<and>
   batchRequestMiddleware post_update body init =
     (Inr (Forwarded 1), init\<lparr>nextCalls := [post_update]\<rparr>)"
proof -
  have h: "indexOf ''/wp/v2/posts/7'' ''/v2/template-parts'' = - 1"
    by (simp add: indexOf_def)
  then have "\<exists>p. path post_update = Some p \<and> indexOf p ''/v2/template-parts'' = - 1"
    by (simp add: post_update_def)
  then have "batchRequestMiddleware post_update body init =
     (Inr (Forwarded (body post_update)), init\<lparr>nextCalls := nextCalls init @ [post_update]\<rparr>)"
    by (intro ineligible_forwarded_once) blast
  with h show ?thesis by (simp add: post_update_def init_def)
qed

text \<open>
  The third test is only reached by a request that passes the first two, and it reads the
  path: a request that passes them and has no path at all raises instead.
\<close>

lemma absent_path_raises:
  assumes "method opts \<in> {Some ''POST'', Some ''PUT'', Some ''PATCH'', Some ''DELETE''}"
    and "batchAs opts = Some tag" and "tag \<noteq> []" and "path opts = None"
  shows "batchRequestMiddleware opts next s = (Inl TypeError, s)"
  using assms
  by (auto simp: batchRequestMiddleware_def endpointSupportsBatch_def Let_def)

text \<open>
  Claim C7. Two requests that differ in the grouping tag or in the method have different
  batch keys, and batching one of them leaves the batch registered under the key of the other
  as it was.
\<close>

theorem key_separates_batches:
  assumes "batchAs o1 \<noteq> batchAs o2 \<or> method o1 \<noteq> method o2"
  shows "JSON_stringify [batchAs o1, method o1] \<noteq> JSON_stringify [batchAs o2, method o2] \<and>
         awaitingBatches (snd (batchRequestMiddleware o2 next s))
             (JSON_stringify [batchAs o1, method o1])
           = awaitingBatches s (JSON_stringify [batchAs o1, method o1])"
proof -
  have ne: "JSON_stringify [batchAs o1, method o1] \<noteq> JSON_stringify [batchAs o2, method o2]"
    using assms JSON_stringify_pair_inj by blast
  then show ?thesis using middleware_registry_other by blast
qed

theorem key_separates_batches_witness:
  "method (template_part 1) \<noteq> method (template_part 2\<lparr>method := Some ''PUT''\<rparr>) \<and>
   JSON_stringify [Some ''g1'', Some ''POST'']  \<noteq> JSON_stringify [Some ''g1'', Some ''PUT''] \<and>
   awaitingBatches
     (snd (batchRequestMiddleware (template_part 2\<lparr>method := Some ''PUT''\<rparr>) body
        (snd (batchRequestMiddleware (template_part 1) body init))))
     (JSON_stringify [Some ''g1'', Some ''POST''])
   = Some \<lparr>promise = TimerPromise 0, requests = [template_part 1]\<rparr>"
proof -
  have h: "method (template_part 1) \<noteq> method (template_part 2\<lparr>method := Some ''PUT''\<rparr>)"
    by (simp add: template_part_def)
  have k: "JSON_stringify [batchAs (template_part 1), method (template_part 1)]
             = JSON_stringify [Some ''g1'', Some ''POST'']"
    by (simp add: template_part_def)
  have k2: "JSON_stringify [batchAs (template_part 2\<lparr>method := Some ''PUT''\<rparr>),
               method (template_part 2\<lparr>method := Some ''PUT''\<rparr>)]
             = JSON_stringify [Some ''g1'', Some ''PUT'']"
    by (simp add: template_part_def)
  have first: "awaitingBatches (snd (batchRequestMiddleware (template_part 1) body init))
                 (JSON_stringify [Some ''g1'', Some ''POST''])
               = Some \<lparr>promise = TimerPromise 0, requests = [template_part 1]\<rparr>"
    by code_simp
  from key_separates_batches[of "template_part 1" "template_part 2\<lparr>method := Some ''PUT''\<rparr>" body
      "snd (batchRequestMiddleware (template_part 1) body init)", OF disjI2, OF h]
  show ?thesis using h first by (simp only: k k2) simp
qed

section \<open>What a flush sends\<close>

text \<open>
  Claim C8. A flush sends one request to \<open>/wp/__experimental/batch\<close> whose data carry
  the validation policy \<open>require-all-validate\<close> and, for each request of the batch in the
  order of the batch, its path, body and headers and nothing else: the grouping tag, the
  method and any other field of a request have no influence on what is sent.
\<close>

theorem flush_sends_projection:
  assumes "awaitingBatches s batchId = Some u"
  shows "fetches (snd (commit batchId s)) = fetches s @
           [\<lparr>fetch_path = ''/wp/__experimental/batch'', fetch_method = ''POST'',
             fetch_data = \<lparr>validation = ''require-all-validate'',
               data_requests = map (\<lambda>options. \<lparr>sub_path = path options,
                 sub_body = body options, sub_headers = headers options\<rparr>) (requests u)\<rparr>\<rparr>] \<and>
         fetches (snd (commit batchId (s\<lparr>awaitingBatches := (awaitingBatches s)(batchId \<mapsto>
             u\<lparr>requests := map (\<lambda>options. options\<lparr>batchAs := tag, method := m, others := x\<rparr>)
                               (requests u)\<rparr>)\<rparr>)))
           = fetches (snd (commit batchId s))"
  using assms by (simp add: commit_Some combined_request_def comp_def)

theorem flush_sends_projection_witness:
  "fetches (snd (commit ''k'' (init\<lparr>awaitingBatches :=
       [''k'' \<mapsto> \<lparr>promise = Null, requests = [template_part 5, template_part 6]\<rparr>]\<rparr>)))
   = [\<lparr>fetch_path = ''/wp/__experimental/batch'', fetch_method = ''POST'',
       fetch_data = \<lparr>validation = ''require-all-validate'',
         data_requests =
           [\<lparr>sub_path = Some ''/wp/v2/template-parts/7'', sub_body = 5,
              sub_headers = ''X-WP-Nonce: 1''\<rparr>,
            \<lparr>sub_path = Some ''/wp/v2/template-parts/7'', sub_body = 6,
              sub_headers = ''X-WP-Nonce: 1''\<rparr>]\<rparr>\<rparr>]"
proof -
  let ?s = "init\<lparr>awaitingBatches :=
       [''k'' \<mapsto> \<lparr>promise = Null, requests = [template_part 5, template_part 6]\<rparr>]\<rparr>
       :: (nat, string, bool) state"
  have h: "awaitingBatches ?s ''k'' = Some \<lparr>promise = Null, requests = [template_part 5, template_part 6]\<rparr>"
    by simp
  from flush_sends_projection[OF h, THEN conjunct1]
  show ?thesis by (simp add: template_part_def init_def)
qed

section \<open>Responses shorter than the batch\<close>

text \<open>
  When the promise a caller waits on is fulfilled with a list that is not longer than the
  caller's index, the caller's promise is fulfilled with \<open>undefined\<close>; it is not rejected.
\<close>

lemma short_response_gives_undefined:
  assumes "settled tr s v = Some (Fulfilled subResponses)" and "length subResponses \<le> idx"
  shows "caller_outcome tr s v idx = Some (Fulfilled None)"
  using assms by (simp add: caller_outcome_def subscript_def)

section \<open>Batched requests and the next handler\<close>

lemma sends_only_batches_step:
  fixes s :: "('b, 'h, 'x) state"
  assumes "\<forall>opts. e = Request opts \<longrightarrow> eligible opts"
  shows "sends_only_batches s (fst (step next e (s, out)))"
proof (cases e)
  case (Request opts)
  with assms have "eligible opts" by simp
  then have "sends_only_batches s (snd (batchRequestMiddleware opts next s))"
    by (rule sends_only_batches_middleware)
  with Request show ?thesis by (cases "batchRequestMiddleware opts next s") simp
next
  case (Elapse d)
  have "only_flushes s (elapse d s)" by (rule only_flushes_elapse)
  with Elapse show ?thesis by (simp add: only_flushes_def)
qed

lemma step_not_forwarded:
  assumes "\<forall>opts. e = Request opts \<longrightarrow> eligible opts"
    and "r \<in> set (snd (step next e (s, out)))"
  shows "r \<in> set out \<or> (\<forall>x. r \<noteq> Inr (Forwarded x))"
proof (cases e)
  case (Request opts)
  with assms(1) have "eligible opts" by simp
  then have "\<forall>x. fst (batchRequestMiddleware opts next s) \<noteq> Inr (Forwarded x)"
    by (simp add: middleware_not_forwarded)
  with Request assms(2) show ?thesis
    by (cases "batchRequestMiddleware opts next s") auto
next
  case (Elapse d)
  with assms(2) show ?thesis by simp
qed

lemma fold_step_batched:
  fixes s :: "('b, 'h, 'x) state"
  assumes "\<forall>opts. Request opts \<in> set evs \<longrightarrow> eligible opts"
  shows "sends_only_batches s (fst (fold (step next) evs (s, out))) \<and>
         (\<forall>r \<in> set (snd (fold (step next) evs (s, out))).
             r \<in> set out \<or> (\<forall>x. r \<noteq> Inr (Forwarded x)))"
  using assms
proof (induction evs arbitrary: s out)
  case Nil
  show ?case by (simp add: sends_only_batches_refl)
next
  case (Cons e evs)
  obtain s1 out1 where st: "step next e (s, out) = (s1, out1)" by (cases "step next e (s, out)")
  have e: "\<forall>opts. e = Request opts \<longrightarrow> eligible opts" using Cons.prems by simp
  have 1: "sends_only_batches s s1"
    using sends_only_batches_step[OF e, of s "next" out] st by simp
  have 2: "\<forall>r \<in> set out1. r \<in> set out \<or> (\<forall>x. r \<noteq> Inr (Forwarded x))"
    using step_not_forwarded[OF e, of _ "next" s out] st by simp
  have ih: "sends_only_batches s1 (fst (fold (step next) evs (s1, out1))) \<and>
         (\<forall>r \<in> set (snd (fold (step next) evs (s1, out1))).
             r \<in> set out1 \<or> (\<forall>x. r \<noteq> Inr (Forwarded x)))"
    using Cons.IH[of s1 out1] Cons.prems by simp
  have "sends_only_batches s (fst (fold (step next) evs (s1, out1)))"
    using 1 ih by (blast intro: sends_only_batches_trans)
  moreover have "\<forall>r \<in> set (snd (fold (step next) evs (s1, out1))).
             r \<in> set out \<or> (\<forall>x. r \<noteq> Inr (Forwarded x))"
    using 2 ih by blast
  ultimately show ?case using st by simp
qed

text \<open>
  Claim C9. In a run whose requests are all eligible, \<open>next\<close> is never called, no call of
  the middleware returns a forwarded result, and every call made to the transport is a
  combined request built by a flush.
\<close>

theorem batched_requests_bypass_next:
  fixes s :: "('b, 'h, 'x) state"
  assumes "\<forall>opts. Request opts \<in> set evs \<longrightarrow> eligible opts"
  shows "nextCalls (fst (run next evs s)) = nextCalls s \<and>
         (\<forall>r \<in> set (snd (run next evs s)). \<forall>x. r \<noteq> Inr (Forwarded x)) \<and>
         (\<exists>new. fetches (fst (run next evs s)) = fetches s @ new \<and>
            (\<forall>f \<in> set new. \<exists>rs :: ('b, 'h, 'x) options list. f = combined_request rs))"
  using fold_step_batched[OF assms, of s "next" "[]"]
  by (simp add: run_def sends_only_batches_def)

theorem batched_requests_bypass_next_witness:
  "eligible (template_part 1) \<and>
   nextCalls (fst (run body [Request (template_part 1), Elapse 1000] init)) = [] \<and>
   snd (run body [Request (template_part 1), Elapse 1000] init)
     = [Inr (ThenIndex (TimerPromise 0) 0)] \<and>
   fetches (fst (run body [Request (template_part 1), Elapse 1000] init))
     = [combined_request [template_part 1]]"
proof -
  have e: "eligible (template_part 1)" by code_simp
  then have "\<forall>opts. Request opts \<in> set [Request (template_part 1), Elapse 1000] \<longrightarrow> eligible opts"
    by simp
  from batched_requests_bypass_next[OF this, of body init, THEN conjunct1]
  have "nextCalls (fst (run body [Request (template_part 1), Elapse 1000] init)) = []"
    by (simp add: init_def)
  moreover have "snd (run body [Request (template_part 1), Elapse 1000] init)
     = [Inr (ThenIndex (TimerPromise 0) 0)]"
    by code_simp
  moreover have "fetches (fst (run body [Request (template_part 1), Elapse 1000] init))
     = [combined_request [template_part 1]]"
    by code_simp
  ultimately show ?thesis using e by simp
qed

section \<open>The size trigger\<close>

lemma elapse_keeps_unregistered:
  assumes "awaitingBatches s b = None"
  shows "awaitingBatches (elapse d s) b = None"
  using only_flushes_elapse[of s d] assms unfolding only_flushes_def by metis

lemma elapse_nextPromiseId: "nextPromiseId (elapse d s) = nextPromiseId s"
  using only_flushes_elapse[of s d] by (simp add: only_flushes_def)

lemma elapse_fetches_prefix: "prefix (fetches s) (fetches (elapse d s))"
  using only_flushes_elapse[of s d]
  by (auto simp: only_flushes_def sends_only_batches_def)

lemma full_index:
  assumes "MAX_BATCH_SIZE \<le> fst (addRequestToBatch b opts s) + 1"
  shows "\<exists>u. awaitingBatches s b = Some u \<and> fst (addRequestToBatch b opts s) = length (requests u)
              \<and> MAX_BATCH_SIZE \<le> length (requests u) + 1"
  using assms
  by (cases "awaitingBatches s b") (simp_all add: addRequestToBatch_def Let_def MAX_BATCH_SIZE_def)

text \<open>
  Claim C2. When the index of a request in its batch is at least the maximum size minus one,
  the batch, this request included, is sent during the call itself: the clock has not moved,
  the promise returned is the one of that transport call, and the batch is no longer
  registered. A later request with the same tag and method, whatever time has passed, gets
  index 0 in a batch of its own with a new promise.
\<close>

theorem full_batch_flushes_at_once:
  fixes s :: "('b, 'h, 'x) state"
  assumes "eligible opts" and "eligible opts'"
    and "batchAs opts' = batchAs opts" and "method opts' = method opts"
    and "MAX_BATCH_SIZE \<le>
           fst (addRequestToBatch (JSON_stringify [batchAs opts, method opts]) opts s) + 1"
  shows "let key = JSON_stringify [batchAs opts, method opts];
             idx = fst (addRequestToBatch key opts s);
             (r, s') = batchRequestMiddleware opts next s;
             (r', s'') = batchRequestMiddleware opts' next (elapse d s')
         in r = Inr (ThenIndex (FetchPromise (length (fetches s))) idx) \<and>
            (\<exists>u. awaitingBatches s key = Some u \<and>
                 fetches s' = fetches s @ [combined_request (requests u @ [opts])]) \<and>
            now s' = now s \<and>
            awaitingBatches s' key = None \<and>
            r' = Inr (ThenIndex (TimerPromise (nextPromiseId s')) 0) \<and>
            awaitingBatches s'' key =
              Some \<lparr>promise = TimerPromise (nextPromiseId s'), requests = [opts']\<rparr>"
proof -
  let ?key = "JSON_stringify [batchAs opts, method opts]"
  from full_index[OF assms(5)] obtain u where u: "awaitingBatches s ?key = Some u"
    "fst (addRequestToBatch ?key opts s) = length (requests u)"
    "MAX_BATCH_SIZE \<le> length (requests u) + 1"
    by blast
  let ?s' = "(clearTimeout (promise u) (s\<lparr>awaitingBatches := (awaitingBatches s)(?key := None)\<rparr>))
        \<lparr>fetches := fetches s @ [combined_request (requests u @ [opts])]\<rparr>"
  have m1: "batchRequestMiddleware opts next s =
     (Inr (ThenIndex (FetchPromise (length (fetches s))) (length (requests u))), ?s')"
    by (rule middleware_full[OF assms(1) u(1) u(3)])
  have gone: "awaitingBatches ?s' ?key = None" by simp
  have key': "JSON_stringify [batchAs opts', method opts'] = ?key"
    using assms(3,4) by simp
  have gone': "awaitingBatches (elapse d ?s') (JSON_stringify [batchAs opts', method opts']) = None"
    unfolding key' using gone by (rule elapse_keeps_unregistered)
  note m2 = middleware_first[OF assms(2) gone', of "next", unfolded key']
  show ?thesis
    using u(1) by (simp add: Let_def m1 u(2) m2 elapse_nextPromiseId)
qed


theorem full_batch_flushes_at_once_witness:
  "MAX_BATCH_SIZE \<le> fst (addRequestToBatch (JSON_stringify [Some ''g1'', Some ''POST''])
       (template_part 19) (fst (run body (map (\<lambda>n. Request (template_part n)) [0..<19]) init))) + 1 \<and>
   fst (batchRequestMiddleware (template_part 19) body
          (fst (run body (map (\<lambda>n. Request (template_part n)) [0..<19]) init)))
     = Inr (ThenIndex (FetchPromise 0) 19) \<and>
   fst (batchRequestMiddleware (template_part 20) body
          (elapse 5 (snd (batchRequestMiddleware (template_part 19) body
             (fst (run body (map (\<lambda>n. Request (template_part n)) [0..<19]) init))))))
     = Inr (ThenIndex (TimerPromise 1) 0)"
proof -
  let ?s = "fst (run body (map (\<lambda>n. Request (template_part n)) [0..<19]) init)"
  have e1: "eligible (template_part 19)" and e2: "eligible (template_part 20)"
    by code_simp+
  have same: "batchAs (template_part 20) = batchAs (template_part 19)"
    "method (template_part 20) = method (template_part 19)"
    by (simp_all add: template_part_def)
  have key: "JSON_stringify [batchAs (template_part 19), method (template_part 19)]
             = JSON_stringify [Some ''g1'', Some ''POST'']"
    by (simp add: template_part_def)
  have full: "MAX_BATCH_SIZE \<le> fst (addRequestToBatch (JSON_stringify [Some ''g1'', Some ''POST''])
       (template_part 19) ?s) + 1"
    by code_simp
  have idx: "fst (addRequestToBatch (JSON_stringify [Some ''g1'', Some ''POST''])
       (template_part 19) ?s) = 19"
    by code_simp
  have len: "length (fetches ?s) = 0" by code_simp
  have np: "nextPromiseId (snd (batchRequestMiddleware (template_part 19) body ?s)) = 1"
    by code_simp
  from full_batch_flushes_at_once[OF e1 e2 same, of ?s body 5] full
  show ?thesis
    by (simp add: key Let_def split_beta idx len np)
qed

section \<open>Removal from the registry\<close>

lemma middleware_append_only:
  assumes "awaitingBatches s b = Some u"
  shows "awaitingBatches (snd (batchRequestMiddleware opts next s)) b = None \<or>
         (\<exists>u'. awaitingBatches (snd (batchRequestMiddleware opts next s)) b = Some u' \<and>
               prefix (requests u) (requests u'))"
proof (cases "eligible opts")
  case False
  from middleware_ineligible_snd[OF False, of "next" s] assms show ?thesis by auto
next
  case True
  let ?key = "JSON_stringify [batchAs opts, method opts]"
  show ?thesis
  proof (cases "b = ?key")
    case False
    then show ?thesis using assms by (simp add: middleware_registry_other)
  next
    case same: True
    let ?s1 = "snd (addRequestToBatch ?key opts s)"
    from addRequestToBatch_own[of ?key opts s] assms same
    obtain u1 where u1: "awaitingBatches ?s1 ?key = Some u1" "requests u1 = requests u @ [opts]"
      by auto
    from commitEventually_frame(5)[OF u1(1)]
    obtain u2 where u2: "awaitingBatches (snd (commitEventually ?key ?s1)) ?key = Some u2"
      "requests u2 = requests u1" by blast
    show ?thesis
      using same u1 u2
      by (simp add: middleware_eligible_snd[OF True] Let_def commit_frame)
  qed
qed

lemma step_append_only:
  assumes "awaitingBatches s b = Some u"
  shows "awaitingBatches (fst (step next e (s, out))) b = None \<or>
         (\<exists>u'. awaitingBatches (fst (step next e (s, out))) b = Some u' \<and>
               prefix (requests u) (requests u'))"
proof (cases e)
  case (Request opts)
  with middleware_append_only[OF assms, of opts "next"] show ?thesis
    by (cases "batchRequestMiddleware opts next s") simp
next
  case (Elapse d)
  from only_flushes_elapse[of s d] have
    "awaitingBatches (elapse d s) b = None \<or> awaitingBatches (elapse d s) b = awaitingBatches s b"
    by (simp add: only_flushes_def)
  with Elapse assms show ?thesis by auto
qed

lemma middleware_fetches_prefix:
  "prefix (fetches s) (fetches (snd (batchRequestMiddleware opts next s)))"
proof (cases "eligible opts")
  case True
  from sends_only_batches_middleware[OF True, of s "next"] show ?thesis
    by (auto simp: sends_only_batches_def)
next
  case False
  from middleware_ineligible_snd[OF False, of "next" s] show ?thesis by auto
qed

lemma step_fetches_prefix:
  "prefix (fetches s) (fetches (fst (step next e (s, out))))"
proof (cases e)
  case (Request opts)
  with middleware_fetches_prefix[of s opts "next"] show ?thesis
    by (cases "batchRequestMiddleware opts next s") simp
next
  case (Elapse d)
  with elapse_fetches_prefix[of s d] show ?thesis by simp
qed

lemma middleware_new_batch:
  assumes "awaitingBatches s b = None"
    and "awaitingBatches (snd (batchRequestMiddleware opts next s)) b = Some u'"
  shows "requests u' = [opts]"
proof (cases "eligible opts")
  case False
  from middleware_ineligible_snd[OF False, of "next" s] assms show ?thesis by auto
next
  case True
  show ?thesis
  proof (cases "b = JSON_stringify [batchAs opts, method opts]")
    case False
    with assms show ?thesis by (simp add: middleware_registry_other)
  next
    case same: True
    with assms(1) have "awaitingBatches s (JSON_stringify [batchAs opts, method opts]) = None"
      by simp
    from middleware_first[OF True this, of "next"] assms(2) same show ?thesis by auto
  qed
qed

lemma step_new_batch:
  assumes "awaitingBatches s b = None"
    and "awaitingBatches (fst (step next e (s, out))) b = Some u'"
  shows "\<exists>opts. e = Request opts \<and> requests u' = [opts]"
proof (cases e)
  case (Request opts)
  with assms(2) have "awaitingBatches (snd (batchRequestMiddleware opts next s)) b = Some u'"
    by (cases "batchRequestMiddleware opts next s") simp
  from middleware_new_batch[OF assms(1) this] Request show ?thesis by simp
next
  case (Elapse d)
  with assms elapse_keeps_unregistered[OF assms(1), of d] show ?thesis by simp
qed

text \<open>
  Claim C5. \<open>commit\<close> takes the batch out of the registry and calls the transport in a
  state in which the key is no longer registered. Until then one event either removes the
  batch or leaves its requests as a prefix of what it holds afterwards. After the flush the
  calls already made to the transport stay as they are, and a batch found under the key
  after one more event is a new one that holds the request of that event and nothing else.
\<close>

theorem flush_closes_batch:
  fixes s :: "('b, 'h, 'x) state" and out :: "(error + 'r result) list"
  assumes "awaitingBatches s b = Some u"
  shows "(\<exists>s2. awaitingBatches s2 b = None \<and>
            commit b s = (case apiFetch (combined_request (requests u)) s2 of
                            (p, s3) \<Rightarrow> (Inr p, s3))) \<and>
         awaitingBatches (snd (commit b s)) b = None \<and>
         prefix (fetches s) (fetches (fst (step next e (s, out)))) \<and>
         (awaitingBatches (fst (step next e (s, out))) b = None \<or>
          (\<exists>u'. awaitingBatches (fst (step next e (s, out))) b = Some u' \<and>
                prefix (requests u) (requests u'))) \<and>
         prefix (fetches (snd (commit b s))) (fetches (fst (step next e (snd (commit b s), out)))) \<and>
         (\<forall>u'. awaitingBatches (fst (step next e (snd (commit b s), out))) b = Some u' \<longrightarrow>
               (\<exists>opts. e = Request opts \<and> requests u' = [opts]))"
proof -
  let ?s2 = "clearTimeout (promise u) (s\<lparr>awaitingBatches := (awaitingBatches s)(b := None)\<rparr>)"
  have "awaitingBatches ?s2 b = None" by simp
  moreover have "commit b s = (case apiFetch (combined_request (requests u)) ?s2 of
                            (p, s3) \<Rightarrow> (Inr p, s3))"
    using assms by (simp add: commit_def apiFetch_def combined_request_def Let_def)
  ultimately have 1: "\<exists>s2. awaitingBatches s2 b = None \<and>
            commit b s = (case apiFetch (combined_request (requests u)) s2 of
                            (p, s3) \<Rightarrow> (Inr p, s3))"
    by blast
  have 2: "awaitingBatches (snd (commit b s)) b = None" by (simp add: commit_frame)
  have 3: "prefix (fetches s) (fetches (fst (step next e (s, out))))"
    by (rule step_fetches_prefix)
  note 4 = step_append_only[OF assms, of "next" e out]
  have 5: "prefix (fetches (snd (commit b s))) (fetches (fst (step next e (snd (commit b s), out))))"
    by (rule step_fetches_prefix)
  have 6: "\<forall>u'. awaitingBatches (fst (step next e (snd (commit b s), out))) b = Some u' \<longrightarrow>
               (\<exists>opts. e = Request opts \<and> requests u' = [opts])"
    using step_new_batch[OF 2] by blast
  from 1 2 3 4 5 6 show ?thesis by (intro conjI)
qed


theorem flush_closes_batch_witness:
  "awaitingBatches (snd (batchRequestMiddleware (template_part 1) body init))
     (JSON_stringify [Some ''g1'', Some ''POST''])
     = Some \<lparr>promise = TimerPromise 0, requests = [template_part 1]\<rparr> \<and>
   awaitingBatches
     (snd (commit (JSON_stringify [Some ''g1'', Some ''POST''])
        (snd (batchRequestMiddleware (template_part 1) body init))))
     (JSON_stringify [Some ''g1'', Some ''POST'']) = None \<and>
   awaitingBatches
     (fst (step body (Request (template_part 2))
        (snd (batchRequestMiddleware (template_part 1) body init), [])))
     (JSON_stringify [Some ''g1'', Some ''POST''])
     = Some \<lparr>promise = TimerPromise 0, requests = [template_part 1, template_part 2]\<rparr> \<and>
   prefix [template_part 1] [template_part 1, template_part 2] \<and>
   awaitingBatches
     (fst (step body (Request (template_part 2))
        (snd (commit (JSON_stringify [Some ''g1'', Some ''POST''])
           (snd (batchRequestMiddleware (template_part 1) body init))), [])))
     (JSON_stringify [Some ''g1'', Some ''POST''])
     = Some \<lparr>promise = TimerPromise 1, requests = [template_part 2]\<rparr>"
proof -
  let ?key = "JSON_stringify [Some ''g1'', Some ''POST'']"
  let ?s = "snd (batchRequestMiddleware (template_part 1) body init)"
  have h: "awaitingBatches ?s ?key
     = Some \<lparr>promise = TimerPromise 0, requests = [template_part 1]\<rparr>"
    by code_simp
  have a: "awaitingBatches (fst (step body (Request (template_part 2)) (?s, []))) ?key
     = Some \<lparr>promise = TimerPromise 0, requests = [template_part 1, template_part 2]\<rparr>"
    by code_simp
  have b: "awaitingBatches
     (fst (step body (Request (template_part 2)) (snd (commit ?key ?s), []))) ?key
     = Some \<lparr>promise = TimerPromise 1, requests = [template_part 2]\<rparr>"
    by code_simp
  from flush_closes_batch[OF h, of body "Request (template_part 2)" "[]"] h a b
  show ?thesis by simp
qed

section \<open>States the program can reach\<close>

lemma well_formed_init: "well_formed init"
  by (simp add: well_formed_def init_def)

lemma well_formed_middleware:
  fixes s :: "('b, 'h, 'x) state"
  assumes "well_formed s"
  shows "well_formed (snd (batchRequestMiddleware opts next s))"
proof (cases "eligible opts")
  case False
  from middleware_ineligible_snd[OF False, of "next" s] assms show ?thesis
    by (auto simp: well_formed_def)
next
  case True
  let ?key = "JSON_stringify [batchAs opts, method opts]"
  show ?thesis
  proof (cases "awaitingBatches s ?key")
    case None
    show ?thesis
      unfolding middleware_first[OF True None]
      using assms by (auto simp: well_formed_def less_Suc_eq)
  next
    case (Some u)
    from assms Some obtain q where q: "promise u = TimerPromise q"
      unfolding well_formed_def by blast
    show ?thesis
    proof (cases "length (requests u) + 1 < MAX_BATCH_SIZE")
      case True
      show ?thesis
        unfolding middleware_join[OF \<open>eligible opts\<close> Some q True]
        using assms q by (auto simp: well_formed_def)
    next
      case False
      then have full: "MAX_BATCH_SIZE \<le> length (requests u) + 1" by simp
      show ?thesis
        unfolding middleware_full[OF \<open>eligible opts\<close> Some full]
        using assms q by (auto simp: well_formed_def)
    qed
  qed
qed

lemma well_formed_fire:
  fixes s :: "('b, 'h, 'x) state"
  assumes "well_formed s" and "timer_promise tm < nextPromiseId s"
  shows "well_formed (fire tm s)"
proof (cases "awaitingBatches s (timer_batch tm)")
  case None
  with assms(1) show ?thesis by (simp add: fire_None well_formed_def)
next
  case (Some u)
  from assms(1) Some obtain q where q: "promise u = TimerPromise q"
    unfolding well_formed_def by blast
  show ?thesis
    unfolding fire_Some[OF Some]
    using assms q by (auto simp: well_formed_def resolve_def)
qed

lemma well_formed_run_timer:
  fixes s :: "('b, 'h, 'x) state"
  assumes "well_formed s"
  shows "well_formed (run_timer tm s)"
proof (cases "tm \<in> set (timers s)")
  case False
  with assms show ?thesis by (simp add: run_timer_def)
next
  case True
  let ?s1 = "s\<lparr>timers := removeAll tm (timers s), now := max (now s) (timer_due tm)\<rparr>"
  have "well_formed ?s1" using assms by (simp add: well_formed_def)
  moreover have "timer_promise tm < nextPromiseId ?s1"
    using assms True by (simp add: well_formed_def)
  ultimately have "well_formed (fire tm ?s1)" by (rule well_formed_fire)
  with True show ?thesis by (simp add: run_timer_def)
qed

lemma well_formed_fold:
  fixes s :: "('b, 'h, 'x) state"
  assumes "well_formed s"
  shows "well_formed (fold run_timer tms s)"
  using assms by (induction tms arbitrary: s) (simp_all add: well_formed_run_timer)

lemma well_formed_elapse:
  fixes s :: "('b, 'h, 'x) state"
  assumes "well_formed s"
  shows "well_formed (elapse d s)"
proof -
  have "well_formed (fold run_timer (filter (\<lambda>tm. timer_due tm \<le> now s + d) (timers s)) s)"
    using assms by (rule well_formed_fold)
  then show ?thesis by (simp add: elapse_def Let_def well_formed_def)
qed

lemma well_formed_fold_step:
  fixes s :: "('b, 'h, 'x) state"
  assumes "well_formed s"
  shows "well_formed (fst (fold (step next) evs (s, out)))"
  using assms
proof (induction evs arbitrary: s out)
  case Nil
  then show ?case by simp
next
  case (Cons e evs)
  have "well_formed (fst (step next e (s, out)))"
  proof (cases e)
    case (Request opts)
    with well_formed_middleware[OF Cons.prems, of opts "next"] show ?thesis
      by (cases "batchRequestMiddleware opts next s") simp
  next
    case (Elapse d)
    with well_formed_elapse[OF Cons.prems, of d] show ?thesis by simp
  qed
  from Cons.IH[OF this, of "snd (step next e (s, out))"] show ?case by simp
qed

lemma well_formed_run: "well_formed (fst (run next evs init))"
  unfolding run_def using well_formed_init by (rule well_formed_fold_step)


section \<open>A batch flushed by its timer\<close>

text \<open>
  While a batch waits for its timeout, a timeout that belongs to another key leaves it
  alone.
\<close>

lemma foreign_not_window_timer:
  "foreign s0 key tm \<Longrightarrow> tm \<noteq> window_timer s0 key"
  by (auto simp: foreign_def window_timer_def)

lemma length_removeAll_less:
  "x \<in> set xs \<Longrightarrow> length (removeAll x xs) < length xs"
  by (induction xs) (auto simp: less_Suc_eq_le length_removeAll_less_eq)

lemma pending_run_timer:
  fixes s :: "('b, 'h, 'x) state"
  assumes "pending s0 key qs s" and "foreign s0 key tm"
  shows "pending s0 key qs (run_timer tm s)"
proof (cases "tm \<in> set (timers s)")
  case False
  with assms(1) show ?thesis by (simp add: run_timer_def)
next
  case True
  let ?p = "nextPromiseId s0"
  let ?tm0 = "window_timer s0 key"
  from assms(1) obtain fs others where
    batch: "awaitingBatches s key = Some \<lparr>promise = TimerPromise ?p, requests = qs\<rparr>" and
    res: "resolved s ?p = None" and
    prom: "\<forall>b u. awaitingBatches s b = Some u \<longrightarrow> (\<exists>q. promise u = TimerPromise q)" and
    reg: "\<forall>b. b \<noteq> key \<longrightarrow> awaitingBatches s b = None \<or> awaitingBatches s b = awaitingBatches s0 b" and
    tms: "timers s = fs @ [?tm0]" and
    fs: "\<forall>tm \<in> set fs. foreign s0 key tm" and
    fet: "fetches s = fetches s0 @ others" and
    cnt: "length others + length fs \<le> length (timers s0)" and
    oth: "\<forall>f \<in> set others. other_flush s0 key f"
    unfolding pending_def by blast
  have ne: "tm \<noteq> ?tm0" using assms(2) by (rule foreign_not_window_timer)
  have other: "timer_batch tm \<noteq> key" "timer_promise tm \<noteq> ?p"
    using assms(2) by (simp_all add: foreign_def)
  from True tms ne have mem: "tm \<in> set fs" by simp
  let ?fs' = "removeAll tm fs"
  have rem: "removeAll tm (timers s) = ?fs' @ [?tm0]" using tms ne by simp
  have less: "length ?fs' < length fs" using mem by (rule length_removeAll_less)
  have fs': "\<forall>tm \<in> set ?fs'. foreign s0 key tm" using fs by simp
  let ?s1 = "s\<lparr>timers := removeAll tm (timers s), now := max (now s) (timer_due tm)\<rparr>"
  have rt: "run_timer tm s = fire tm ?s1" using True by (simp add: run_timer_def)
  show ?thesis
  proof (cases "awaitingBatches s (timer_batch tm)")
    case None
    then have f: "fire tm ?s1 = ?s1\<lparr>uncaught := uncaught ?s1 @ [TypeError]\<rparr>"
      by (simp add: fire_None)
    have ex: "\<exists>fs' others'. removeAll tm (timers s) = fs' @ [?tm0] \<and>
                (\<forall>tm \<in> set fs'. foreign s0 key tm) \<and> fetches s = fetches s0 @ others' \<and>
                length others' + length fs' \<le> length (timers s0) \<and>
                (\<forall>f \<in> set others'. other_flush s0 key f)"
      using rem fs' fet cnt less oth by (intro exI[of _ ?fs'] exI[of _ others]) simp
    show ?thesis
      unfolding rt f pending_def using batch res prom reg ex by simp
  next
    case (Some u)
    from prom Some obtain q where q: "promise u = TimerPromise q" by blast
    have f: "fire tm ?s1 =
       resolve (timer_promise tm) (FetchPromise (length (fetches s)))
         (?s1\<lparr>awaitingBatches := (awaitingBatches s)(timer_batch tm := None),
               fetches := fetches s @ [combined_request (requests u)]\<rparr>)"
      using Some q by (simp add: fire_Some)
    from reg other(1) Some have "awaitingBatches s0 (timer_batch tm) = Some u" by force
    with other(1) have new: "other_flush s0 key (combined_request (requests u))"
      unfolding other_flush_def by blast
    have ex: "\<exists>fs' others'. removeAll tm (timers s) = fs' @ [?tm0] \<and>
                (\<forall>tm \<in> set fs'. foreign s0 key tm) \<and>
                fetches s @ [combined_request (requests u)] = fetches s0 @ others' \<and>
                length others' + length fs' \<le> length (timers s0) \<and>
                (\<forall>f \<in> set others'. other_flush s0 key f)"
      using rem fs' fet cnt less oth new
      by (intro exI[of _ ?fs'] exI[of _ "others @ [combined_request (requests u)]"]) simp
    show ?thesis
      unfolding rt f pending_def
      using batch res prom reg other ex
      by (simp add: resolve_def)
  qed
qed

lemma pending_fold:
  fixes s :: "('b, 'h, 'x) state"
  assumes "pending s0 key qs s" and "\<forall>tm \<in> set tms. foreign s0 key tm"
  shows "pending s0 key qs (fold run_timer tms s)"
  using assms
  by (induction tms arbitrary: s) (simp_all add: pending_run_timer)

lemma pending_due:
  fixes s :: "('b, 'h, 'x) state"
  assumes "pending s0 key qs s"
  shows "\<exists>fs. (\<forall>tm \<in> set fs. foreign s0 key tm) \<and>
           filter (\<lambda>tm. timer_due tm \<le> t) (timers s) =
             fs @ (if now s0 + BATCH_TIME_WINDOW \<le> t then [window_timer s0 key] else [])"
proof -
  from assms obtain fs where tms: "timers s = fs @ [window_timer s0 key]"
    and fs: "\<forall>tm \<in> set fs. foreign s0 key tm"
    unfolding pending_def by blast
  have "\<forall>tm \<in> set (filter (\<lambda>tm. timer_due tm \<le> t) fs). foreign s0 key tm"
    using fs by simp
  moreover have "filter (\<lambda>tm. timer_due tm \<le> t) (timers s) =
      filter (\<lambda>tm. timer_due tm \<le> t) fs @
        (if now s0 + BATCH_TIME_WINDOW \<le> t then [window_timer s0 key] else [])"
    by (simp add: tms window_timer_def)
  ultimately show ?thesis by blast
qed

lemma pending_wait:
  fixes s :: "('b, 'h, 'x) state"
  assumes "pending s0 key qs s" and "now s = now s0 + e" and "e + d < BATCH_TIME_WINDOW"
  shows "pending s0 key qs (elapse d s) \<and> now (elapse d s) = now s0 + (e + d)"
proof -
  from pending_due[OF assms(1), of "now s + d"]
  obtain fs where fs: "\<forall>tm \<in> set fs. foreign s0 key tm"
    and due0: "filter (\<lambda>tm. timer_due tm \<le> now s + d) (timers s) =
      fs @ (if now s0 + BATCH_TIME_WINDOW \<le> now s + d then [window_timer s0 key] else [])"
    by blast
  have "\<not> now s0 + BATCH_TIME_WINDOW \<le> now s + d" using assms(2,3) by simp
  with due0 have due: "filter (\<lambda>tm. timer_due tm \<le> now s + d) (timers s) = fs"
    by simp
  have "pending s0 key qs (fold run_timer fs s)"
    using assms(1) fs by (rule pending_fold)
  then have "pending s0 key qs ((fold run_timer fs s)\<lparr>now := now s + d\<rparr>)"
    by (simp add: pending_def)
  moreover have "elapse d s = (fold run_timer fs s)\<lparr>now := now s + d\<rparr>"
    by (simp only: elapse_def Let_def due)
  ultimately show ?thesis using assms(2) by simp
qed

lemma pending_fire:
  fixes s :: "('b, 'h, 'x) state"
  assumes "pending s0 key qs s"
  shows "flushed s0 key qs (run_timer (window_timer s0 key) s)"
proof -
  let ?p = "nextPromiseId s0"
  let ?tm0 = "window_timer s0 key"
  from assms obtain fs others where
    batch: "awaitingBatches s key = Some \<lparr>promise = TimerPromise ?p, requests = qs\<rparr>" and
    res: "resolved s ?p = None" and
    tms: "timers s = fs @ [?tm0]" and
    fet: "fetches s = fetches s0 @ others" and
    cnt: "length others + length fs \<le> length (timers s0)" and
    oth: "\<forall>f \<in> set others. other_flush s0 key f"
    unfolding pending_def by blast
  let ?s1 = "s\<lparr>timers := removeAll ?tm0 (timers s), now := max (now s) (timer_due ?tm0)\<rparr>"
  have rt: "run_timer ?tm0 s = fire ?tm0 ?s1" using tms by (simp add: run_timer_def)
  have b1: "awaitingBatches ?s1 (timer_batch ?tm0)
              = Some \<lparr>promise = TimerPromise ?p, requests = qs\<rparr>"
    using batch by (simp add: window_timer_def)
  have ex: "\<exists>others'. fetches s @ [combined_request qs] = fetches s0 @ others' @ [combined_request qs] \<and>
              length others' \<le> length (timers s0) \<and>
              (\<forall>f \<in> set others'. other_flush s0 key f) \<and>
              FetchPromise (length (fetches s)) = FetchPromise (length (fetches s0) + length others')"
    using fet cnt oth by (intro exI[of _ others]) simp
  show ?thesis
    unfolding rt fire_Some[OF b1] flushed_def
    using res ex by (simp add: resolve_def window_timer_def)
qed

lemma flushed_now:
  fixes s :: "('b, 'h, 'x) state"
  shows "flushed s0 key qs (s\<lparr>now := t\<rparr>) = flushed s0 key qs s"
  by (simp add: flushed_def)

lemma pending_close:
  fixes s :: "('b, 'h, 'x) state"
  assumes "pending s0 key qs s" and "now s = now s0 + e" and "BATCH_TIME_WINDOW \<le> e + d"
  shows "flushed s0 key qs (elapse d s)"
proof -
  from pending_due[OF assms(1), of "now s + d"]
  obtain fs where fs: "\<forall>tm \<in> set fs. foreign s0 key tm"
    and due0: "filter (\<lambda>tm. timer_due tm \<le> now s + d) (timers s) =
      fs @ (if now s0 + BATCH_TIME_WINDOW \<le> now s + d then [window_timer s0 key] else [])"
    by blast
  have "now s0 + BATCH_TIME_WINDOW \<le> now s + d" using assms(2,3) by simp
  with due0 have due: "filter (\<lambda>tm. timer_due tm \<le> now s + d) (timers s)
                         = fs @ [window_timer s0 key]"
    by simp
  have "pending s0 key qs (fold run_timer fs s)"
    using assms(1) fs by (rule pending_fold)
  then have "flushed s0 key qs (run_timer (window_timer s0 key) (fold run_timer fs s))"
    by (rule pending_fire)
  moreover have "elapse d s =
      (run_timer (window_timer s0 key) (fold run_timer fs s))\<lparr>now := now s + d\<rparr>"
    by (simp only: elapse_def Let_def due fold_append fold_simps comp_apply id_apply)
  ultimately show ?thesis by (simp only: flushed_now)
qed

lemma pending_open:
  fixes s0 :: "('b, 'h, 'x) state"
  assumes "eligible r" and "JSON_stringify [batchAs r, method r] = key"
    and "well_formed s0" and "awaitingBatches s0 key = None"
    and "\<forall>tm \<in> set (timers s0). timer_batch tm \<noteq> key"
  shows "\<exists>s. batchRequestMiddleware r next s0 =
               (Inr (ThenIndex (TimerPromise (nextPromiseId s0)) 0), s) \<and>
             pending s0 key [r] s \<and> now s = now s0"
proof -
  have none: "awaitingBatches s0 (JSON_stringify [batchAs r, method r]) = None"
    using assms(2,4) by simp
  have res: "resolved s0 (nextPromiseId s0) = None"
    using assms(3) unfolding well_formed_def by (metis less_irrefl not_Some_eq)
  have fs: "\<forall>tm \<in> set (timers s0). foreign s0 key tm"
    using assms(3,5) unfolding well_formed_def foreign_def by (metis less_irrefl)
  have prom: "\<forall>b u. awaitingBatches s0 b = Some u \<longrightarrow> (\<exists>q. promise u = TimerPromise q)"
    using assms(3) unfolding well_formed_def by blast
  have ex: "\<exists>fs others. timers s0 @ [window_timer s0 key] = fs @ [window_timer s0 key] \<and>
              (\<forall>tm \<in> set fs. foreign s0 key tm) \<and> fetches s0 = fetches s0 @ others \<and>
              length others + length fs \<le> length (timers s0) \<and>
              (\<forall>f \<in> set others. other_flush s0 key f)"
    using fs by (intro exI[of _ "timers s0"] exI[of _ "[]"]) simp
  show ?thesis
    unfolding middleware_first[OF assms(1) none] pending_def
    using res prom ex assms(2) by (simp add: window_timer_def)
qed

lemma pending_join:
  fixes s :: "('b, 'h, 'x) state"
  assumes "eligible r" and "JSON_stringify [batchAs r, method r] = key"
    and "pending s0 key qs s" and "length qs + 1 < MAX_BATCH_SIZE"
  shows "\<exists>s'. batchRequestMiddleware r next s =
               (Inr (ThenIndex (TimerPromise (nextPromiseId s0)) (length qs)), s') \<and>
              pending s0 key (qs @ [r]) s' \<and> now s' = now s"
proof -
  have batch: "awaitingBatches s (JSON_stringify [batchAs r, method r]) =
          Some \<lparr>promise = TimerPromise (nextPromiseId s0), requests = qs\<rparr>"
    using assms(2,3) by (simp add: pending_def)
  have m: "batchRequestMiddleware r next s =
     (Inr (ThenIndex (TimerPromise (nextPromiseId s0)) (length qs)),
      s\<lparr>awaitingBatches := (awaitingBatches s)(key \<mapsto>
            \<lparr>promise = TimerPromise (nextPromiseId s0), requests = qs @ [r]\<rparr>)\<rparr>)"
    using middleware_join[OF assms(1) batch, of "nextPromiseId s0" "next"] assms(2,4) by simp
  show ?thesis
    unfolding m using assms(3) by (simp add: pending_def)
qed


lemma upt_shift: "[a..<a + Suc n] = a # [Suc a..<Suc a + n]"
  using upt_conv_Cons[of a "a + Suc n"] by (simp del: upt_Suc)

lemma pending_fill:
  fixes s :: "('b, 'h, 'x) state"
  assumes "pending s0 key qs s" and "now s = now s0 + e"
    and "\<forall>r \<in> set (map snd drs). eligible r \<and> JSON_stringify [batchAs r, method r] = key"
    and "length qs + length drs < MAX_BATCH_SIZE"
    and "e + sum_list (map fst drs) < BATCH_TIME_WINDOW"
  shows "\<exists>s'. fold (step next) (spaced drs) (s, out) =
            (s', out @ map (\<lambda>i. Inr (ThenIndex (TimerPromise (nextPromiseId s0)) i))
                          [length qs..<length qs + length drs]) \<and>
          pending s0 key (qs @ map snd drs) s' \<and>
          now s' = now s0 + (e + sum_list (map fst drs))"
  using assms
proof (induction drs arbitrary: qs e s out)
  case Nil
  then show ?case by simp
next
  case (Cons dr drs)
  obtain d r where dr: "dr = (d, r)" by (cases dr)
  have r: "eligible r" "JSON_stringify [batchAs r, method r] = key"
    using Cons.prems(3) dr by simp_all
  have wait: "e + d < BATCH_TIME_WINDOW" using Cons.prems(5) dr by simp
  have room: "length qs + 1 < MAX_BATCH_SIZE" using Cons.prems(4) by simp
  from pending_wait[OF Cons.prems(1,2) wait]
  have w: "pending s0 key qs (elapse d s)" "now (elapse d s) = now s0 + (e + d)"
    by simp_all
  from pending_join[OF r w(1) room, of "next"]
  obtain s1 where s1: "batchRequestMiddleware r next (elapse d s) =
               (Inr (ThenIndex (TimerPromise (nextPromiseId s0)) (length qs)), s1)"
    "pending s0 key (qs @ [r]) s1" "now s1 = now (elapse d s)"
    by blast
  have now1: "now s1 = now s0 + (e + d)" using s1(3) w(2) by simp
  have rest: "\<forall>r \<in> set (map snd drs). eligible r \<and> JSON_stringify [batchAs r, method r] = key"
    using Cons.prems(3) by simp
  have room': "length (qs @ [r]) + length drs < MAX_BATCH_SIZE" using Cons.prems(4) by simp
  have time': "(e + d) + sum_list (map fst drs) < BATCH_TIME_WINDOW"
    using Cons.prems(5) dr by simp
  from Cons.IH[OF s1(2) now1 rest room' time',
      of "out @ [Inr (ThenIndex (TimerPromise (nextPromiseId s0)) (length qs))]"]
  obtain s' where s': "fold (step next) (spaced drs)
        (s1, out @ [Inr (ThenIndex (TimerPromise (nextPromiseId s0)) (length qs))]) =
      (s', (out @ [Inr (ThenIndex (TimerPromise (nextPromiseId s0)) (length qs))]) @
           map (\<lambda>i. Inr (ThenIndex (TimerPromise (nextPromiseId s0)) i))
               [length (qs @ [r])..<length (qs @ [r]) + length drs])"
    "pending s0 key ((qs @ [r]) @ map snd drs) s'"
    "now s' = now s0 + ((e + d) + sum_list (map fst drs))"
    by blast
  have upt: "[length qs..<length qs + length (dr # drs)]
             = length qs # [length (qs @ [r])..<length (qs @ [r]) + length drs]"
    using upt_shift[of "length qs" "length drs"] by simp
  have "fold (step next) (spaced (dr # drs)) (s, out) =
          fold (step next) (spaced drs)
            (s1, out @ [Inr (ThenIndex (TimerPromise (nextPromiseId s0)) (length qs))])"
    by (simp add: dr s1(1))
  then show ?case
    unfolding upt using s' by (simp add: dr add.assoc del: upt_Suc)
qed

lemma pending_run:
  fixes s0 :: "('b, 'h, 'x) state"
  assumes "\<forall>r \<in> set (r0 # map snd drs). eligible r \<and> JSON_stringify [batchAs r, method r] = key"
    and "length (r0 # map snd drs) < MAX_BATCH_SIZE"
    and "sum_list (map fst drs) < BATCH_TIME_WINDOW"
    and "well_formed s0" and "awaitingBatches s0 key = None"
    and "\<forall>tm \<in> set (timers s0). timer_batch tm \<noteq> key"
  shows "\<exists>s. run next (Request r0 # spaced drs) s0 =
            (s, map (\<lambda>i. Inr (ThenIndex (TimerPromise (nextPromiseId s0)) i))
                    [0..<length (r0 # map snd drs)]) \<and>
          pending s0 key (r0 # map snd drs) s \<and>
          now s = now s0 + sum_list (map fst drs)"
proof -
  have r0: "eligible r0" "JSON_stringify [batchAs r0, method r0] = key"
    using assms(1) by simp_all
  from pending_open[OF r0 assms(4,5,6), of "next"]
  obtain s1 where s1: "batchRequestMiddleware r0 next s0 =
               (Inr (ThenIndex (TimerPromise (nextPromiseId s0)) 0), s1)"
    "pending s0 key [r0] s1" "now s1 = now s0"
    by blast
  have now1: "now s1 = now s0 + 0" using s1(3) by simp
  have rest: "\<forall>r \<in> set (map snd drs). eligible r \<and> JSON_stringify [batchAs r, method r] = key"
    using assms(1) by simp
  have room: "length [r0] + length drs < MAX_BATCH_SIZE" using assms(2) by simp
  have time: "0 + sum_list (map fst drs) < BATCH_TIME_WINDOW" using assms(3) by simp
  from pending_fill[OF s1(2) now1 rest room time,
      of "next" "[Inr (ThenIndex (TimerPromise (nextPromiseId s0)) 0)]"]
  obtain s where s: "fold (step next) (spaced drs)
        (s1, [Inr (ThenIndex (TimerPromise (nextPromiseId s0)) 0)]) =
      (s, [Inr (ThenIndex (TimerPromise (nextPromiseId s0)) 0)] @
           map (\<lambda>i. Inr (ThenIndex (TimerPromise (nextPromiseId s0)) i))
               [length [r0]..<length [r0] + length drs])"
    "pending s0 key ([r0] @ map snd drs) s"
    "now s = now s0 + (0 + sum_list (map fst drs))"
    by blast
  have upt: "[0..<length (r0 # map snd drs)] = 0 # [length [r0]..<length [r0] + length drs]"
    using upt_shift[of 0 "length drs"] by simp
  have "run next (Request r0 # spaced drs) s0 =
          fold (step next) (spaced drs)
            (s1, [Inr (ThenIndex (TimerPromise (nextPromiseId s0)) 0)])"
    by (simp add: run_def s1(1))
  then show ?thesis
    unfolding upt using s by (simp del: upt_Suc)
qed

lemma pending_run_closed:
  fixes s0 :: "('b, 'h, 'x) state"
  assumes "\<forall>r \<in> set (r0 # map snd drs). eligible r \<and> JSON_stringify [batchAs r, method r] = key"
    and "length (r0 # map snd drs) < MAX_BATCH_SIZE"
    and "sum_list (map fst drs) < BATCH_TIME_WINDOW"
    and "BATCH_TIME_WINDOW \<le> sum_list (map fst drs) + d"
    and "well_formed s0" and "awaitingBatches s0 key = None"
    and "\<forall>tm \<in> set (timers s0). timer_batch tm \<noteq> key"
  shows "\<exists>s. run next (Request r0 # spaced drs @ [Elapse d]) s0 =
            (s, map (\<lambda>i. Inr (ThenIndex (TimerPromise (nextPromiseId s0)) i))
                    [0..<length (r0 # map snd drs)]) \<and>
          flushed s0 key (r0 # map snd drs) s"
proof -
  from pending_run[OF assms(1,2,3,5,6,7), of "next"]
  obtain s where s: "run next (Request r0 # spaced drs) s0 =
            (s, map (\<lambda>i. Inr (ThenIndex (TimerPromise (nextPromiseId s0)) i))
                    [0..<length (r0 # map snd drs)])"
    "pending s0 key (r0 # map snd drs) s"
    "now s = now s0 + sum_list (map fst drs)"
    by blast
  have "run next (Request r0 # spaced drs @ [Elapse d]) s0 =
          step next (Elapse d) (run next (Request r0 # spaced drs) s0)"
    by (simp add: run_def)
  then have "run next (Request r0 # spaced drs @ [Elapse d]) s0 =
     (elapse d s, map (\<lambda>i. Inr (ThenIndex (TimerPromise (nextPromiseId s0)) i))
                    [0..<length (r0 # map snd drs)])"
    by (simp only: s(1) step.simps)
  moreover have "flushed s0 key (r0 # map snd drs) (elapse d s)"
    using s(2,3) assms(4) by (rule pending_close)
  ultimately show ?thesis by blast
qed


text \<open>
  Claim C1, as amended. Take at most 19 eligible requests with the same grouping tag and
  method. The first is made in a well-formed state, as every state the program reaches is,
  in which no batch is registered under their key and no timeout for that key is pending;
  the others are made before the time window of the first has ended. When the last has been
  made they are all in the registered batch, in the order they were made. When the window
  ends the batch is sent in one combined request, the last call made to the transport, with
  the requests in that order; the calls made to the transport since the first request are
  otherwise flushes of batches that were registered under other keys, at most one for each
  timeout that was pending, so none when there was none. The promise of the \<open>i\<close>-th caller
  is fulfilled with \<open>subResponses[i]\<close> once the transport has fulfilled the call for the
  batch with \<open>subResponses\<close>.
\<close>

theorem window_batch_flushed_once:
  fixes s :: "('b, 'h, 'x) state"
    and tr :: "nat \<Rightarrow> ('e, 'v list) outcome option"
  assumes "\<forall>r \<in> set (r0 # map snd drs).
             eligible r \<and> batchAs r = batchAs r0 \<and> method r = method r0"
    and "length (r0 # map snd drs) < MAX_BATCH_SIZE"
    and "sum_list (map fst drs) < BATCH_TIME_WINDOW"
    and "BATCH_TIME_WINDOW \<le> sum_list (map fst drs) + d"
    and "well_formed s"
    and "awaitingBatches s (JSON_stringify [batchAs r0, method r0]) = None"
    and "\<forall>tm \<in> set (timers s). timer_batch tm \<noteq> JSON_stringify [batchAs r0, method r0]"
  shows "awaitingBatches (fst (run next (Request r0 # spaced drs) s))
             (JSON_stringify [batchAs r0, method r0])
           = Some \<lparr>promise = TimerPromise (nextPromiseId s), requests = r0 # map snd drs\<rparr> \<and>
         snd (run next (Request r0 # spaced drs @ [Elapse d]) s)
           = map (\<lambda>i. Inr (ThenIndex (TimerPromise (nextPromiseId s)) i))
                 [0..<length (r0 # map snd drs)] \<and>
         awaitingBatches (fst (run next (Request r0 # spaced drs @ [Elapse d]) s))
             (JSON_stringify [batchAs r0, method r0]) = None \<and>
         (\<exists>others.
            fetches (fst (run next (Request r0 # spaced drs @ [Elapse d]) s))
              = fetches s @ others @ [combined_request (r0 # map snd drs)] \<and>
            length others \<le> length (timers s) \<and>
            (\<forall>f \<in> set others. other_flush s (JSON_stringify [batchAs r0, method r0]) f) \<and>
            (\<forall>i subResponses.
               i < length (r0 # map snd drs) \<longrightarrow>
               tr (length (fetches s) + length others) = Some (Fulfilled subResponses) \<longrightarrow>
               caller_outcome tr (fst (run next (Request r0 # spaced drs @ [Elapse d]) s))
                 (TimerPromise (nextPromiseId s)) i
                 = Some (Fulfilled (subscript subResponses i))))"
proof -
  let ?key = "JSON_stringify [batchAs r0, method r0]"
  let ?rs = "r0 # map snd drs"
  have same: "\<forall>r \<in> set ?rs. eligible r \<and> JSON_stringify [batchAs r, method r] = ?key"
    using assms(1) by simp
  from pending_run[OF same assms(2,3,5,6,7), of "next"]
  have 1: "awaitingBatches (fst (run next (Request r0 # spaced drs) s)) ?key
           = Some \<lparr>promise = TimerPromise (nextPromiseId s), requests = ?rs\<rparr>"
    by (auto simp: pending_def)
  from pending_run_closed[OF same assms(2,3,4,5,6,7), of "next"]
  obtain s' where s': "run next (Request r0 # spaced drs @ [Elapse d]) s =
            (s', map (\<lambda>i. Inr (ThenIndex (TimerPromise (nextPromiseId s)) i)) [0..<length ?rs])"
    and fl: "flushed s ?key ?rs s'"
    by blast
  from fl obtain others where
    gone: "awaitingBatches s' ?key = None" and
    fet: "fetches s' = fetches s @ others @ [combined_request ?rs]" and
    len: "length others \<le> length (timers s)" and
    oth: "\<forall>f \<in> set others. other_flush s ?key f" and
    res: "resolved s' (nextPromiseId s) = Some (FetchPromise (length (fetches s) + length others))"
    unfolding flushed_def by blast
  have out: "caller_outcome tr s' (TimerPromise (nextPromiseId s)) i
               = Some (Fulfilled (subscript subResponses i))"
    if "tr (length (fetches s) + length others) = Some (Fulfilled subResponses)"
    for i subResponses
    using that by (simp add: caller_outcome_def settled_def res fet)
  have 4: "\<exists>others.
            fetches s' = fetches s @ others @ [combined_request ?rs] \<and>
            length others \<le> length (timers s) \<and>
            (\<forall>f \<in> set others. other_flush s ?key f) \<and>
            (\<forall>i subResponses.
               i < length ?rs \<longrightarrow>
               tr (length (fetches s) + length others) = Some (Fulfilled subResponses) \<longrightarrow>
               caller_outcome tr s' (TimerPromise (nextPromiseId s)) i
                 = Some (Fulfilled (subscript subResponses i)))"
    using fet len oth out by blast
  show ?thesis
    unfolding s' fst_conv snd_conv using 1 gone 4 by (intro conjI) simp_all
qed

theorem window_batch_flushed_once_witness:
  "length (template_part 0 # map snd [(300 :: nat, template_part 1), (600, template_part 2)])
     < MAX_BATCH_SIZE \<and>
   sum_list (map fst [(300 :: nat, template_part 1), (600, template_part 2)]) < BATCH_TIME_WINDOW \<and>
   well_formed (init :: (nat, string, bool) state) \<and>
   fetches (fst (run body (Request (template_part 0) #
       spaced [(300 :: nat, template_part 1), (600, template_part 2)] @ [Elapse 100]) init))
     = [combined_request [template_part 0, template_part 1, template_part 2]] \<and>
   caller_outcome transport_answers
     (fst (run body (Request (template_part 0) #
       spaced [(300 :: nat, template_part 1), (600, template_part 2)] @ [Elapse 100]) init))
     (TimerPromise 0) 1 = Some (Fulfilled (Some ''respB''))"
proof -
  let ?drs = "[(300 :: nat, template_part 1), (600, template_part 2)]"
  let ?init = "init :: (nat, string, bool) state"
  have h1: "\<forall>r \<in> set (template_part 0 # map snd ?drs).
             eligible r \<and> batchAs r = batchAs (template_part 0) \<and>
             method r = method (template_part 0)"
    by (simp add: template_part_def eligible_def endpointSupportsBatch_def indexOf_def)
  have h2: "length (template_part 0 # map snd ?drs) < MAX_BATCH_SIZE"
    by (simp add: MAX_BATCH_SIZE_def)
  have h3: "sum_list (map fst ?drs) < BATCH_TIME_WINDOW"
    by (simp add: BATCH_TIME_WINDOW_def)
  have h4: "BATCH_TIME_WINDOW \<le> sum_list (map fst ?drs) + 100"
    by (simp add: BATCH_TIME_WINDOW_def)
  have h5: "well_formed ?init" by (rule well_formed_init)
  have h6: "awaitingBatches ?init
              (JSON_stringify [batchAs (template_part 0), method (template_part 0)]) = None"
    by (simp add: init_def)
  have h7: "\<forall>tm \<in> set (timers ?init).
              timer_batch tm \<noteq> JSON_stringify [batchAs (template_part 0), method (template_part 0)]"
    by (simp add: init_def)
  have i: "nextPromiseId ?init = 0" "fetches ?init = []" "timers ?init = []"
    by (simp_all add: init_def)
  from window_batch_flushed_once[OF h1 h2 h3 h4 h5 h6 h7, of body transport_answers]
  obtain others where
    fet: "fetches (fst (run body (Request (template_part 0) # spaced ?drs @ [Elapse 100]) ?init))
           = fetches ?init @ others @ [combined_request (template_part 0 # map snd ?drs)]"
    and len: "length others \<le> length (timers ?init)"
    and out: "\<forall>i subResponses.
               i < length (template_part 0 # map snd ?drs) \<longrightarrow>
               transport_answers (length (fetches ?init) + length others)
                 = Some (Fulfilled subResponses) \<longrightarrow>
               caller_outcome transport_answers
                 (fst (run body (Request (template_part 0) # spaced ?drs @ [Elapse 100]) ?init))
                 (TimerPromise (nextPromiseId ?init)) i
                 = Some (Fulfilled (subscript subResponses i))"
    by (elim conjE exE) (rule that, assumption+)
  from len have none: "others = []" by (simp add: i)
  have t: "transport_answers (length (fetches ?init) + length others)
            = Some (Fulfilled [''respA'', ''respB'', ''respC''])"
    by (simp add: transport_answers_def)
  from out[rule_format, of 1, OF _ t]
  have "caller_outcome transport_answers
          (fst (run body (Request (template_part 0) # spaced ?drs @ [Elapse 100]) ?init))
          (TimerPromise 0) 1 = Some (Fulfilled (Some ''respB''))"
    by (simp add: i subscript_def)
  with fet none h2 h3 h5 show ?thesis by (simp add: i)
qed

text \<open>
  Claim C1 as stated holds for no number of requests above 20: with 21 requests made at the
  same instant, the first 20 have been sent together when the last one has been made, and
  the last one is sent alone.
\<close>

theorem window_batch_counterexample:
  "map (length \<circ> data_requests \<circ> fetch_data)
     (fetches (fst (run body (map (Request \<circ> template_part) [0..<21]) init)))
   = [20] \<and>
   map (length \<circ> data_requests \<circ> fetch_data)
     (fetches (fst (run body (map (Request \<circ> template_part) [0..<21] @ [Elapse 1000]) init)))
   = [20, 1]"
  by code_simp

text \<open>
  The same run with a transport that rejects: every caller of a batch flushed by its timer
  is rejected with the error of the transport.
\<close>

lemma window_batch_rejected:
  fixes s :: "('b, 'h, 'x) state"
    and tr :: "nat \<Rightarrow> ('e, 'v list) outcome option"
  assumes "\<forall>r \<in> set (r0 # map snd drs).
             eligible r \<and> batchAs r = batchAs r0 \<and> method r = method r0"
    and "length (r0 # map snd drs) < MAX_BATCH_SIZE"
    and "sum_list (map fst drs) < BATCH_TIME_WINDOW"
    and "BATCH_TIME_WINDOW \<le> sum_list (map fst drs) + d"
    and "well_formed s"
    and "awaitingBatches s (JSON_stringify [batchAs r0, method r0]) = None"
    and "\<forall>tm \<in> set (timers s). timer_batch tm \<noteq> JSON_stringify [batchAs r0, method r0]"
    and "tr (length (fetches (fst (run next (Request r0 # spaced drs @ [Elapse d]) s))) - 1)
           = Some (Rejected err)"
  shows "caller_outcome tr (fst (run next (Request r0 # spaced drs @ [Elapse d]) s))
              (TimerPromise (nextPromiseId s)) i = Some (Rejected err)"
proof -
  let ?key = "JSON_stringify [batchAs r0, method r0]"
  let ?rs = "r0 # map snd drs"
  have same: "\<forall>r \<in> set ?rs. eligible r \<and> JSON_stringify [batchAs r, method r] = ?key"
    using assms(1) by simp
  from pending_run_closed[OF same assms(2,3,4,5,6,7), of "next"]
  obtain s' where s': "run next (Request r0 # spaced drs @ [Elapse d]) s =
            (s', map (\<lambda>i. Inr (ThenIndex (TimerPromise (nextPromiseId s)) i)) [0..<length ?rs])"
    and fl: "flushed s ?key ?rs s'"
    by blast
  from fl obtain others where
    fet: "fetches s' = fetches s @ others @ [combined_request ?rs]" and
    res: "resolved s' (nextPromiseId s) = Some (FetchPromise (length (fetches s) + length others))"
    unfolding flushed_def by blast
  from assms(8) have "tr (length (fetches s) + length others) = Some (Rejected err)"
    by (simp add: s' fet)
  then show ?thesis
    by (simp add: s' caller_outcome_def settled_def res fet)
qed

section \<open>Resolved promises\<close>

lemma middleware_resolved:
  "resolved (snd (batchRequestMiddleware opts next s)) = resolved s"
proof (cases "eligible opts")
  case True
  have "resolved (snd (addRequestToBatch b opts s)) = resolved s" for b
    by (simp add: addRequestToBatch_def Let_def)
  moreover have "resolved (snd (commit b t)) = resolved t" for b and t :: "('a, 'b, 'c) state"
    by (simp add: commit_def apiFetch_def Let_def split: option.splits)
  moreover have "resolved (snd (commitEventually b t)) = resolved t"
    for b and t :: "('a, 'b, 'c) state"
    by (simp add: commitEventually_def setTimeout_def Let_def split: option.splits)
  ultimately show ?thesis
    by (simp add: middleware_eligible_snd[OF True] Let_def)
next
  case False
  from middleware_ineligible_snd[OF False, of "next" s] show ?thesis by auto
qed

lemma resolved_by_fetch_middleware:
  assumes "resolved_by_fetch s"
  shows "resolved_by_fetch (snd (batchRequestMiddleware opts next s))"
proof -
  have "length (fetches s) \<le> length (fetches (snd (batchRequestMiddleware opts next s)))"
    using middleware_fetches_prefix[of s opts "next"] by (rule prefix_length_le)
  with assms show ?thesis
    unfolding resolved_by_fetch_def middleware_resolved by (meson less_le_trans)
qed

lemma resolved_by_fetch_fire:
  assumes "resolved_by_fetch s"
  shows "resolved_by_fetch (fire tm s)"
proof (cases "awaitingBatches s (timer_batch tm)")
  case None
  with assms show ?thesis by (simp add: fire_None resolved_by_fetch_def)
next
  case (Some u)
  with assms show ?thesis
    by (auto simp: fire_Some resolved_by_fetch_def resolve_def less_Suc_eq)
qed

lemma resolved_by_fetch_run_timer:
  assumes "resolved_by_fetch s"
  shows "resolved_by_fetch (run_timer tm s)"
proof (cases "tm \<in> set (timers s)")
  case True
  have "resolved_by_fetch
          (s\<lparr>timers := removeAll tm (timers s), now := max (now s) (timer_due tm)\<rparr>)"
    using assms by (simp add: resolved_by_fetch_def)
  then show ?thesis using True by (simp add: run_timer_def resolved_by_fetch_fire)
next
  case False
  with assms show ?thesis by (simp add: run_timer_def)
qed

lemma resolved_by_fetch_fold:
  assumes "resolved_by_fetch s"
  shows "resolved_by_fetch (fold run_timer tms s)"
  using assms by (induction tms arbitrary: s) (simp_all add: resolved_by_fetch_run_timer)

lemma resolved_by_fetch_elapse:
  assumes "resolved_by_fetch s"
  shows "resolved_by_fetch (elapse d s)"
proof -
  have "resolved_by_fetch (fold run_timer (filter (\<lambda>tm. timer_due tm \<le> now s + d) (timers s)) s)"
    using assms by (rule resolved_by_fetch_fold)
  then show ?thesis by (simp add: elapse_def Let_def resolved_by_fetch_def)
qed

lemma fold_step_resolved_by_fetch:
  assumes "resolved_by_fetch s"
  shows "resolved_by_fetch (fst (fold (step next) evs (s, out)))"
  using assms
proof (induction evs arbitrary: s out)
  case Nil
  then show ?case by simp
next
  case (Cons e evs)
  have "resolved_by_fetch (fst (step next e (s, out)))"
  proof (cases e)
    case (Request opts)
    with resolved_by_fetch_middleware[OF Cons.prems, of opts "next"] show ?thesis
      by (cases "batchRequestMiddleware opts next s") simp
  next
    case (Elapse d)
    with resolved_by_fetch_elapse[OF Cons.prems, of d] show ?thesis by simp
  qed
  from Cons.IH[OF this, of "snd (step next e (s, out))"] show ?case by simp
qed

lemma run_resolved_by_fetch: "resolved_by_fetch (fst (run next evs init))"
proof -
  have "resolved_by_fetch init" by (simp add: resolved_by_fetch_def init_def)
  then show ?thesis unfolding run_def by (rule fold_step_resolved_by_fetch)
qed

section \<open>A batch flushed by its size\<close>

text \<open>
  Claim C3 fails on the code. Twenty requests for one key are made at the same instant; the
  twentieth flushes the batch, and \<open>commit\<close> passes the promise of the batch to
  \<open>clearTimeout\<close>, which cancels nothing. When the window ends the timeout of the flushed
  batch runs: \<open>commit\<close> finds no batch under the key and raises. When a further request for
  the key has been made in the meantime, the same timeout sends the new batch before its own
  window has ended, as a second combined request, one millisecond after that request here.
\<close>

theorem orphan_timer_raises:
  "uncaught (fst (run body (map (Request \<circ> template_part) [0..<20] @ [Elapse 1000]) init))
     = [TypeError] \<and>
   map (length \<circ> data_requests \<circ> fetch_data)
     (fetches (fst (run body (map (Request \<circ> template_part) [0..<20] @
        [Elapse 999, Request (template_part 20), Elapse 1]) init)))
     = [20, 1]"
  by code_simp

text \<open>
  Claim C6 fails on the code for a batch flushed by its size. The first nineteen callers
  wait on the promise of \<open>commitEventually\<close>, which the immediate flush does not resolve:
  when the transport rejects the combined request, the twentieth caller is rejected with
  its error and the others stay pending, before and after the window has ended.
\<close>

theorem size_flush_leaves_callers_pending:
  "snd (run body (map (Request \<circ> template_part) [0..<20]) init) ! 0
     = Inr (ThenIndex (TimerPromise 0) 0) \<and>
   snd (run body (map (Request \<circ> template_part) [0..<20]) init) ! 19
     = Inr (ThenIndex (FetchPromise 0) 19) \<and>
   caller_outcome transport_rejects
     (fst (run body (map (Request \<circ> template_part) [0..<20]) init)) (FetchPromise 0) 19
     = Some (Rejected ''E'') \<and>
   caller_outcome transport_rejects
     (fst (run body (map (Request \<circ> template_part) [0..<20]) init)) (TimerPromise 0) 0
     = None \<and>
   caller_outcome transport_rejects
     (fst (run body (map (Request \<circ> template_part) [0..<20] @ [Elapse 1000]) init))
     (TimerPromise 0) 0
     = None"
  by code_simp

text \<open>
  Claim C10 fails on the code for the same callers. The transport fulfils the combined
  request of the twenty requests with three sub-responses. The twentieth caller, whose
  promise follows the promise of the transport call, is fulfilled with \<open>undefined\<close>, as
  lemma \<open>short_response_gives_undefined\<close> says; the sixth caller, whose index is out of
  range as well, stays pending, before and after the window has ended.
\<close>

theorem size_flush_short_response_pending:
  "snd (run body (map (Request \<circ> template_part) [0..<20]) init) ! 5
     = Inr (ThenIndex (TimerPromise 0) 5) \<and>
   caller_outcome transport_answers
     (fst (run body (map (Request \<circ> template_part) [0..<20]) init)) (FetchPromise 0) 19
     = Some (Fulfilled None) \<and>
   caller_outcome transport_answers
     (fst (run body (map (Request \<circ> template_part) [0..<20]) init)) (TimerPromise 0) 5
     = None \<and>
   caller_outcome transport_answers
     (fst (run body (map (Request \<circ> template_part) [0..<20] @ [Elapse 1000]) init))
     (TimerPromise 0) 5
     = None"
  by code_simp

end
